theory Spec2Isabelle
  imports Main "HOL-Library.Option_ord"
begin

section \<open>The host's reflection data, as the registry reads it\<close>

text \<open>
  A \<^verbatim>\<open>const QMetaObject *\<close> is an address or the null pointer; a \<^verbatim>\<open>QObject *\<close> that the
  instrumentation layer hands in is never null.  Pointers are compared and sorted by address,
  the null pointer is below every address.
\<close>

type_synonym addr = nat
type_synonym mo = "addr option"
type_synonym obj = addr

abbreviation nullptr :: mo where
  "nullptr \<equiv> None"

text \<open>
  What \<^verbatim>\<open>addMetaObject\<close> reads through a descriptor pointer: the pointer itself,
  \<^verbatim>\<open>className()\<close>, \<^verbatim>\<open>Execution::isReadOnlyData(..)\<close> and \<^verbatim>\<open>superClass()\<close>, which is
  null or again a descriptor.  The superclass chain of a descriptor is finite.
\<close>

datatype QMetaObject =
  QMetaObject (address: addr) (mo_className: string) (isReadOnlyData: bool)
    (superClass: "QMetaObject option")

text \<open>
  What \<^verbatim>\<open>objectAdded\<close> reads through an object pointer: the pointer, \<^verbatim>\<open>obj->metaObject()\<close>
  and \<^verbatim>\<open>hasDynamicMetaObject(obj)\<close>.
\<close>

datatype QObject =
  QObject (obj_address: obj) (metaObject: QMetaObject) (hasDynamicMetaObject: bool)

fun superClasses :: "QMetaObject \<Rightarrow> QMetaObject list" where
  "superClasses (QMetaObject a n ro None) = [QMetaObject a n ro None]"
| "superClasses (QMetaObject a n ro (Some p)) = QMetaObject a n ro (Some p) # superClasses p"

text \<open>No class is its own ancestor: the addresses along the superclass chain differ.\<close>

definition wf_QMetaObject :: "QMetaObject \<Rightarrow> bool" where
  "wf_QMetaObject d = distinct (map address (superClasses d))"

section \<open>The registry state\<close>

text \<open>
  Modelled from the spec: the struct \<^verbatim>\<open>MetaObjectInfo\<close> is declared in the header, which is
  not among the sources.  Its fields are those the code reads and writes; a
  default-constructed info has zero counters, cleared flags and an empty name.  The counters
  are C++ \<^verbatim>\<open>int\<close>s, for which overflow is undefined; they are unbounded integers here.
\<close>

record MetaObjectInfo =
  invalid :: bool
  isStatic :: bool
  isDynamic :: bool
  className :: string
  selfCount :: int
  inclusiveCount :: int
  selfAliveCount :: int
  inclusiveAliveCount :: int

definition default_MetaObjectInfo :: MetaObjectInfo where
  "default_MetaObjectInfo =
     \<lparr>invalid = False, isStatic = False, isDynamic = False, className = [],
      selfCount = 0, inclusiveCount = 0, selfAliveCount = 0, inclusiveAliveCount = 0\<rparr>"

datatype signal =
  BeforeMetaObjectAdded mo
| AfterMetaObjectAdded mo
| DataChanged mo

text \<open>
  The members of \<^verbatim>\<open>MetaObjectRegistry\<close>, at the types the code uses them at (their
  declarations are in the header): each \<^verbatim>\<open>QHash\<close> is a partial map, a stored pointer may be
  null.  The field \<open>emitted\<close> records the signals emitted so far, oldest first.
\<close>

record registry =
  m_metaObjectInfoMap :: "mo \<Rightarrow> MetaObjectInfo option"
  m_childParentMap :: "mo \<Rightarrow> mo option"
  m_parentChildMap :: "mo \<Rightarrow> mo list option"
  m_metaObjectMap :: "obj \<Rightarrow> mo option"
  m_metaObjectNameMap :: "string \<Rightarrow> mo option"
  m_aliveInstances :: "mo \<Rightarrow> mo list option"
  m_dynamicMetaObjectMap :: "obj \<Rightarrow> mo option"
  m_canonicalMetaObjectMap :: "mo \<Rightarrow> mo option"
  emitted :: "signal list"

definition empty_registry :: registry where
  "empty_registry =
     \<lparr>m_metaObjectInfoMap = Map.empty, m_childParentMap = Map.empty,
      m_parentChildMap = Map.empty, m_metaObjectMap = Map.empty,
      m_metaObjectNameMap = Map.empty, m_aliveInstances = Map.empty,
      m_dynamicMetaObjectMap = Map.empty, m_canonicalMetaObjectMap = Map.empty,
      emitted = []\<rparr>"

text \<open>\<^verbatim>\<open>QHash::value(key)\<close>: the stored value, or a default-constructed one.\<close>

definition infoOf :: "registry \<Rightarrow> mo \<Rightarrow> MetaObjectInfo" where
  "infoOf r m = (case m_metaObjectInfoMap r m of None \<Rightarrow> default_MetaObjectInfo | Some i \<Rightarrow> i)"

definition ptr_value :: "('k \<Rightarrow> mo option) \<Rightarrow> 'k \<Rightarrow> mo" where
  "ptr_value h k = (case h k of None \<Rightarrow> nullptr | Some p \<Rightarrow> p)"

definition list_value :: "('k \<Rightarrow> 'a list option) \<Rightarrow> 'k \<Rightarrow> 'a list" where
  "list_value h k = (case h k of None \<Rightarrow> [] | Some xs \<Rightarrow> xs)"

section \<open>Queries\<close>

definition isKnownMetaObject :: "registry \<Rightarrow> mo \<Rightarrow> bool" where
  "isKnownMetaObject r m = (m_childParentMap r m \<noteq> None)"

definition parentOf :: "registry \<Rightarrow> mo \<Rightarrow> mo" where
  "parentOf r m = ptr_value (m_childParentMap r) m"

definition childrenOf :: "registry \<Rightarrow> mo \<Rightarrow> mo list" where
  "childrenOf r m = list_value (m_parentChildMap r) m"

definition isValid :: "registry \<Rightarrow> mo \<Rightarrow> bool" where
  "isValid r m = (case m_metaObjectInfoMap r m of None \<Rightarrow> False | Some i \<Rightarrow> \<not> invalid i)"

definition registry_isStatic :: "registry \<Rightarrow> mo \<Rightarrow> bool" where
  "registry_isStatic r m = (case m_metaObjectInfoMap r m of None \<Rightarrow> False | Some i \<Rightarrow> isStatic i)"

definition aliveInstance :: "registry \<Rightarrow> mo \<Rightarrow> mo" where
  "aliveInstance r m =
     (case m_aliveInstances r m of
        None \<Rightarrow> m
      | Some pool \<Rightarrow> (case pool of [] \<Rightarrow> nullptr | x # _ \<Rightarrow> x))"

definition canonicalMetaObject :: "registry \<Rightarrow> mo \<Rightarrow> mo" where
  "canonicalMetaObject r m = (case m_canonicalMetaObjectMap r m of Some c \<Rightarrow> c | None \<Rightarrow> m)"

section \<open>addMetaObject\<close>

text \<open>
  The tail of \<^verbatim>\<open>addMetaObject\<close>, from the creation of the info entry to the two
  insertion signals: \<^verbatim>\<open>operator[]\<close> takes the stored info or a default-constructed one.
\<close>

definition insertNode :: "mo \<Rightarrow> string \<Rightarrow> bool \<Rightarrow> bool \<Rightarrow> mo \<Rightarrow> registry \<Rightarrow> registry" where
  "insertNode m name static mergeDynamic parentMetaObject r =
     r\<lparr>m_metaObjectInfoMap := (m_metaObjectInfoMap r)(m \<mapsto>
          (infoOf r m)\<lparr>className := name, isStatic := static,
                       isDynamic := (\<not> static \<and> mergeDynamic)\<rparr>),
       m_childParentMap := (m_childParentMap r)(m \<mapsto> parentMetaObject),
       m_parentChildMap := (m_parentChildMap r)(parentMetaObject \<mapsto>
          list_value (m_parentChildMap r) parentMetaObject @ [m]),
       emitted := emitted r @ [BeforeMetaObjectAdded m, AfterMetaObjectAdded m]\<rparr>"

fun addMetaObject :: "QMetaObject \<Rightarrow> bool \<Rightarrow> registry \<Rightarrow> mo \<times> registry" where
  "addMetaObject (QMetaObject a name ro super) mergeDynamic r =
     (if isKnownMetaObject r (Some a) then (Some a, r)
      else
        (case (case super of
                 None \<Rightarrow> (nullptr, r)
               | Some p \<Rightarrow>
                   if \<not> isKnownMetaObject r (Some (address p))
                   then addMetaObject p mergeDynamic r
                   else (Some (address p), r))
         of (parentMetaObject, r1) \<Rightarrow>
           if \<not> ro \<and> mergeDynamic then
             (case m_metaObjectNameMap r1 name of
                Some c \<Rightarrow> (c, r1)
              | None \<Rightarrow>
                  (Some a,
                   insertNode (Some a) name ro mergeDynamic parentMetaObject
                     (r1\<lparr>m_metaObjectNameMap := (m_metaObjectNameMap r1)(name \<mapsto> Some a)\<rparr>)))
           else (Some a, insertNode (Some a) name ro mergeDynamic parentMetaObject r1)))"

text \<open>
  \<^verbatim>\<open>scanMetaTypes\<close>, run by the constructor on the empty maps, registers the descriptors
  that the enumeration of the host's meta types yields, in order, and then
  \<^verbatim>\<open>staticQtMetaObject\<close>.  The default value of the parameter \<^verbatim>\<open>mergeDynamic\<close> is given in the
  header and is a parameter here.
\<close>

definition scanMetaTypes :: "QMetaObject list \<Rightarrow> QMetaObject \<Rightarrow> bool \<Rightarrow> registry \<Rightarrow> registry" where
  "scanMetaTypes metaTypes staticQtMetaObject mergeDynamic r =
     snd (addMetaObject staticQtMetaObject mergeDynamic
            (fold (\<lambda>mt r. snd (addMetaObject mt mergeDynamic r)) metaTypes r))"

definition new_registry :: "QMetaObject list \<Rightarrow> QMetaObject \<Rightarrow> bool \<Rightarrow> registry" where
  "new_registry metaTypes staticQtMetaObject mergeDynamic =
     scanMetaTypes metaTypes staticQtMetaObject mergeDynamic empty_registry"

section \<open>The sorted pool of alive dynamic descriptors\<close>

text \<open>
  \<^verbatim>\<open>std::lower_bound\<close> on a sorted range: the first position whose element is not below
  the value.  The pools it is called on are sorted in every reachable state.
\<close>

definition lower_bound :: "mo list \<Rightarrow> mo \<Rightarrow> nat" where
  "lower_bound xs v = length (takeWhile (\<lambda>x. x < v) xs)"

definition addAliveInstance :: "QObject \<Rightarrow> mo \<Rightarrow> registry \<Rightarrow> registry" where
  "addAliveInstance ob canonicalMO r =
     (let aliveMO = Some (address (metaObject ob));
          alivePool = list_value (m_aliveInstances r) canonicalMO;
          it = lower_bound alivePool aliveMO
      in r\<lparr>m_dynamicMetaObjectMap := (m_dynamicMetaObjectMap r)(obj_address ob \<mapsto> aliveMO),
           m_canonicalMetaObjectMap := (m_canonicalMetaObjectMap r)(aliveMO \<mapsto> canonicalMO),
           m_aliveInstances := (m_aliveInstances r)(canonicalMO \<mapsto>
              take it alivePool @ aliveMO # drop it alivePool)\<rparr>)"

definition removeAliveInstance :: "obj \<Rightarrow> mo \<Rightarrow> registry \<Rightarrow> registry" where
  "removeAliveInstance ob canonicalMO r =
     (let aliveMO = ptr_value (m_dynamicMetaObjectMap r) ob;
          alivePool = list_value (m_aliveInstances r) canonicalMO;
          it = lower_bound alivePool aliveMO
      in r\<lparr>m_dynamicMetaObjectMap := (m_dynamicMetaObjectMap r)(ob := None),
           m_aliveInstances := (m_aliveInstances r)(canonicalMO \<mapsto>
              (if it < length alivePool \<and> alivePool ! it = aliveMO
               then take it alivePool @ drop (Suc it) alivePool
               else alivePool)),
           m_canonicalMetaObjectMap := (m_canonicalMetaObjectMap r)(aliveMO := None)\<rparr>)"

section \<open>objectAdded and objectRemoved\<close>

text \<open>
  The two ancestor walks are \<^verbatim>\<open>while (current)\<close> loops along the child-to-parent map; a
  walk that never reaches the null pointer has no result.  The assertions of the source are
  compiled out in a release build and are not branches here.
\<close>

definition increaseStep :: "mo \<Rightarrow> registry \<Rightarrow> registry" where
  "increaseStep current r =
     (let info = infoOf r current
      in r\<lparr>m_metaObjectInfoMap := (m_metaObjectInfoMap r)(current \<mapsto>
              info\<lparr>inclusiveCount := inclusiveCount info + 1,
                   inclusiveAliveCount := inclusiveAliveCount info + 1,
                   invalid := False\<rparr>),
           emitted := emitted r @ [DataChanged current]\<rparr>)"

partial_function (option) increaseInclusiveCounts :: "mo \<Rightarrow> registry \<Rightarrow> registry option" where
  "increaseInclusiveCounts current r =
     (case current of
        None \<Rightarrow> Some r
      | Some a \<Rightarrow>
          increaseInclusiveCounts (parentOf (increaseStep current r) current)
            (increaseStep current r))"

declare increaseInclusiveCounts.simps [code]

definition objectAdded :: "QObject \<Rightarrow> registry \<Rightarrow> registry option" where
  "objectAdded ob r =
     (case addMetaObject (metaObject ob) (hasDynamicMetaObject ob) r of
        (canonical, r1) \<Rightarrow>
          let r2 = r1\<lparr>m_metaObjectMap := (m_metaObjectMap r1)(obj_address ob \<mapsto> canonical)\<rparr>;
              info = infoOf r2 canonical;
              r3 = r2\<lparr>m_metaObjectInfoMap := (m_metaObjectInfoMap r2)(canonical \<mapsto>
                        info\<lparr>selfCount := selfCount info + 1,
                             selfAliveCount := selfAliveCount info + 1\<rparr>)\<rparr>;
              r4 = (if isDynamic info then addAliveInstance ob canonical r3 else r3)
          in increaseInclusiveCounts canonical r4)"

definition decreaseStep :: "mo \<Rightarrow> registry \<Rightarrow> registry" where
  "decreaseStep current r =
     (let info = infoOf r current;
          info1 = info\<lparr>inclusiveAliveCount := inclusiveAliveCount info - 1\<rparr>;
          info2 = (if inclusiveAliveCount info1 = 0 \<and> \<not> isStatic info1
                   then info1\<lparr>invalid := True\<rparr> else info1)
      in r\<lparr>m_metaObjectInfoMap := (m_metaObjectInfoMap r)(current \<mapsto> info2),
           emitted := emitted r @ [DataChanged current]\<rparr>)"

partial_function (option) decreaseInclusiveCounts :: "mo \<Rightarrow> registry \<Rightarrow> registry option" where
  "decreaseInclusiveCounts current r =
     (case current of
        None \<Rightarrow> Some r
      | Some a \<Rightarrow>
          decreaseInclusiveCounts (parentOf (decreaseStep current r) current)
            (decreaseStep current r))"

declare decreaseInclusiveCounts.simps [code]

definition objectRemoved :: "obj \<Rightarrow> registry \<Rightarrow> registry option" where
  "objectRemoved ob r =
     (let canonical = ptr_value (m_metaObjectMap r) ob;
          r1 = r\<lparr>m_metaObjectMap := (m_metaObjectMap r)(ob := None)\<rparr>
      in if canonical = nullptr then Some r1
         else
           let info = infoOf r1 canonical;
               r2 = r1\<lparr>m_metaObjectInfoMap := (m_metaObjectInfoMap r1)(canonical \<mapsto> info)\<rparr>
           in if selfAliveCount info = 0 then Some r2
              else
                let r3 = r2\<lparr>m_metaObjectInfoMap := (m_metaObjectInfoMap r2)(canonical \<mapsto>
                            info\<lparr>selfAliveCount := selfAliveCount info - 1\<rparr>)\<rparr>;
                    r4 = (if isDynamic info then removeAliveInstance ob canonical r3 else r3)
                in decreaseInclusiveCounts canonical r4)"

section \<open>Ancestors, event sequences and reachable states\<close>

text \<open>
  The node \<open>m\<close> followed by its ancestors, nearest first, as the child-to-parent map gives
  them; no result when the parent links never reach the null pointer.
\<close>

partial_function (option) parentChain :: "(mo \<Rightarrow> mo option) \<Rightarrow> mo \<Rightarrow> mo list option" where
  "parentChain cpm current =
     (case current of
        None \<Rightarrow> Some []
      | Some a \<Rightarrow>
          Option.bind (parentChain cpm (ptr_value cpm current)) (\<lambda>ch. Some (current # ch)))"

declare parentChain.simps [code]

text \<open>
  The calls the registry receives.  The constructor's scan is a sequence of
  \<^verbatim>\<open>addMetaObject\<close> calls on the empty maps, so a newly constructed registry is the state
  after a prefix of \<open>AddMetaObject\<close> events.
\<close>

datatype event =
  AddMetaObject QMetaObject bool
| ObjectAdded QObject
| ObjectRemoved obj

fun step :: "event \<Rightarrow> registry \<Rightarrow> registry option" where
  "step (AddMetaObject d mergeDynamic) r = Some (snd (addMetaObject d mergeDynamic r))"
| "step (ObjectAdded ob) r = objectAdded ob r"
| "step (ObjectRemoved ob) r = objectRemoved ob r"

fun run :: "event list \<Rightarrow> registry \<Rightarrow> registry option" where
  "run [] r = Some r"
| "run (e # es) r = (case step e r of None \<Rightarrow> None | Some r' \<Rightarrow> run es r')"

fun wf_event :: "event \<Rightarrow> bool" where
  "wf_event (AddMetaObject d mergeDynamic) = wf_QMetaObject d"
| "wf_event (ObjectAdded ob) = wf_QMetaObject (metaObject ob)"
| "wf_event (ObjectRemoved ob) = True"

text \<open>The objects that have been added and not removed since.\<close>

fun alive_after :: "event \<Rightarrow> obj set \<Rightarrow> obj set" where
  "alive_after (AddMetaObject d mergeDynamic) al = al"
| "alive_after (ObjectAdded ob) al = insert (obj_address ob) al"
| "alive_after (ObjectRemoved ob) al = al - {ob}"

fun alive :: "event list \<Rightarrow> obj set \<Rightarrow> obj set" where
  "alive [] al = al"
| "alive (e # es) al = alive es (alive_after e al)"

text \<open>
  An event sequence respects the per-object order when no object is added while it is
  alive; the removal of an object that is not alive is allowed (the registry ignores it).
\<close>

fun valid_events :: "obj set \<Rightarrow> event list \<Rightarrow> bool" where
  "valid_events al [] = True"
| "valid_events al (e # es) =
     (wf_event e \<and> (case e of ObjectAdded ob \<Rightarrow> obj_address ob \<notin> al | _ \<Rightarrow> True) \<and>
      valid_events (alive_after e al) es)"

text \<open>The alive object \<open>ob\<close> is an instance of \<open>n\<close> or of a descendant of \<open>n\<close>.\<close>

definition in_subtree :: "registry \<Rightarrow> mo \<Rightarrow> obj \<Rightarrow> bool" where
  "in_subtree r n ob =
     (case m_metaObjectMap r ob of
        None \<Rightarrow> False
      | Some m \<Rightarrow>
          (case parentChain (m_childParentMap r) m of None \<Rightarrow> False | Some ch \<Rightarrow> n \<in> set ch))"

text \<open>The nodes in the order of their \<^verbatim>\<open>beforeMetaObjectAdded\<close> signals.\<close>

fun insertedNodes :: "signal list \<Rightarrow> mo list" where
  "insertedNodes [] = []"
| "insertedNodes (BeforeMetaObjectAdded m # sigs) = m # insertedNodes sigs"
| "insertedNodes (AfterMetaObjectAdded m # sigs) = insertedNodes sigs"
| "insertedNodes (DataChanged m # sigs) = insertedNodes sigs"

fun dataChanges :: "signal list \<Rightarrow> mo list" where
  "dataChanges [] = []"
| "dataChanges (DataChanged m # sigs) = m # dataChanges sigs"
| "dataChanges (BeforeMetaObjectAdded m # sigs) = dataChanges sigs"
| "dataChanges (AfterMetaObjectAdded m # sigs) = dataChanges sigs"

subsection \<open>Invariants of the reachable states\<close>

definition inv_graph :: "registry \<Rightarrow> bool" where
  "inv_graph r =
     (m_childParentMap r nullptr = None \<and>
      (\<forall>d p. m_childParentMap r d = Some (Some p) \<longrightarrow> m_childParentMap r (Some p) \<noteq> None) \<and>
      (\<forall>m. parentChain (m_childParentMap r) m \<noteq> None))"

definition inv_refs :: "registry \<Rightarrow> bool" where
  "inv_refs r =
     ((\<forall>n c. m_metaObjectNameMap r n = Some c \<longrightarrow> c \<noteq> nullptr \<and> m_childParentMap r c \<noteq> None) \<and>
      (\<forall>m. m_metaObjectInfoMap r m \<noteq> None \<longrightarrow> m_childParentMap r m \<noteq> None) \<and>
      (\<forall>ob m. m_metaObjectMap r ob = Some m \<longrightarrow> m \<noteq> nullptr \<and> m_childParentMap r m \<noteq> None))"

definition inv_static :: "registry \<Rightarrow> bool" where
  "inv_static r = (\<forall>m. isStatic (infoOf r m) \<longrightarrow> \<not> invalid (infoOf r m))"

definition inv_order :: "registry \<Rightarrow> bool" where
  "inv_order r =
     (let L = insertedNodes (emitted r)
      in distinct L \<and> set L = {m. m_childParentMap r m \<noteq> None} \<and>
         (\<forall>i < length L. \<exists>p. m_childParentMap r (L ! i) = Some p \<and>
                              (p = nullptr \<or> p \<in> set (take i L))))"

definition inv_pools :: "registry \<Rightarrow> bool" where
  "inv_pools r =
     (\<forall>m. (\<forall>pool. m_aliveInstances r m = Some pool \<longrightarrow> sorted pool) \<and>
          (m_aliveInstances r m \<noteq> None \<longrightarrow> isDynamic (infoOf r m)) \<and>
          \<not> (isStatic (infoOf r m) \<and> isDynamic (infoOf r m)))"

definition Inv :: "registry \<Rightarrow> bool" where
  "Inv r = (inv_graph r \<and> inv_refs r \<and> inv_static r \<and> inv_order r \<and> inv_pools r)"

text \<open>
  What a call of \<^verbatim>\<open>addMetaObject\<close> leaves as it is: the known nodes and their infos, every
  counter and validity flag, the canonical names chosen so far, the tracked objects and the
  pools; the signals it emits are insertion signals.
\<close>

definition extends :: "registry \<Rightarrow> registry \<Rightarrow> bool" where
  "extends r r' =
     ((\<forall>x. m_childParentMap r x \<noteq> None \<longrightarrow>
           m_childParentMap r' x = m_childParentMap r x \<and>
           m_metaObjectInfoMap r' x = m_metaObjectInfoMap r x) \<and>
      (\<forall>x. selfCount (infoOf r' x) = selfCount (infoOf r x) \<and>
           inclusiveCount (infoOf r' x) = inclusiveCount (infoOf r x) \<and>
           selfAliveCount (infoOf r' x) = selfAliveCount (infoOf r x) \<and>
           inclusiveAliveCount (infoOf r' x) = inclusiveAliveCount (infoOf r x) \<and>
           invalid (infoOf r' x) = invalid (infoOf r x)) \<and>
      (\<forall>n c. m_metaObjectNameMap r n = Some c \<longrightarrow> m_metaObjectNameMap r' n = Some c) \<and>
      m_metaObjectMap r' = m_metaObjectMap r \<and>
      m_aliveInstances r' = m_aliveInstances r \<and>
      m_dynamicMetaObjectMap r' = m_dynamicMetaObjectMap r \<and>
      m_canonicalMetaObjectMap r' = m_canonicalMetaObjectMap r \<and>
      (\<exists>sigs. emitted r' = emitted r @ sigs \<and> dataChanges sigs = []))"

text \<open>
  The counters of the alive instances against the alive objects \<open>al\<close>: every alive object
  is tracked, a node's \<open>selfAliveCount\<close> is the number of alive objects registered under it,
  its \<open>inclusiveAliveCount\<close> the number of alive objects in its subtree, and an invalid node
  has no alive object in its subtree.
\<close>

definition inv_counts :: "obj set \<Rightarrow> registry \<Rightarrow> bool" where
  "inv_counts al r =
     (finite al \<and> dom (m_metaObjectMap r) = al \<and>
      (\<forall>n. selfAliveCount (infoOf r n) = int (card {ob \<in> al. m_metaObjectMap r ob = Some n})) \<and>
      (\<forall>n. inclusiveAliveCount (infoOf r n) = int (card {ob \<in> al. in_subtree r n ob})) \<and>
      (\<forall>n. invalid (infoOf r n) \<longrightarrow> inclusiveAliveCount (infoOf r n) = 0))"

section \<open>The icon repository client\<close>

text \<open>
  The client's state: the index cached by the base class \<^verbatim>\<open>ClassesIconsRepository\<close>, the
  latch \<^verbatim>\<open>m_ready\<close>, the methods invoked on the remote endpoint and the number of
  \<^verbatim>\<open>indexChanged\<close> signals emitted.
\<close>

record client =
  m_iconsIndex :: "string list"
  m_ready :: bool
  invoked :: "string list"
  indexChanged :: nat

text \<open>
  Modelled from the spec: the base class method \<^verbatim>\<open>ClassesIconsRepository::filePath\<close> is not
  among the sources.  It returns the cached path of the id, the empty string when there is
  none.
\<close>

definition ClassesIconsRepository_filePath :: "string list \<Rightarrow> int \<Rightarrow> string" where
  "ClassesIconsRepository_filePath index i =
     (if 0 \<le> i \<and> i < int (length index) then index ! nat i else [])"

text \<open>
  Modelled from the spec: the initial value of \<^verbatim>\<open>m_ready\<close> is given in the header, which
  is not among the sources.  No fetch has been requested when the client is created.
\<close>

definition new_client :: client where
  "new_client = \<lparr>m_iconsIndex = [], m_ready = False, invoked = [], indexChanged = 0\<rparr>"

definition requestIndex :: "client \<Rightarrow> client" where
  "requestIndex c = c\<lparr>m_ready := True, invoked := invoked c @ [''requestIndex'']\<rparr>"

definition filePath :: "int \<Rightarrow> client \<Rightarrow> string \<times> client" where
  "filePath i c =
     (let filePath = ClassesIconsRepository_filePath (m_iconsIndex c) i
      in (filePath, if filePath = [] \<and> \<not> m_ready c then requestIndex c else c))"

definition indexReceived :: "string list \<Rightarrow> client \<Rightarrow> client" where
  "indexReceived index c = c\<lparr>m_iconsIndex := index, indexChanged := indexChanged c + 1\<rparr>"

text \<open>A sequence of \<^verbatim>\<open>filePath\<close> calls: the values returned, in order, and the final state.\<close>

fun filePaths :: "int list \<Rightarrow> client \<Rightarrow> string list \<times> client" where
  "filePaths [] c = ([], c)"
| "filePaths (i # ids) c =
     (case filePath i c of (p, c') \<Rightarrow> (case filePaths ids c' of (ps, c'') \<Rightarrow> (p # ps, c'')))"

section \<open>The parts of the operations, named for the proofs\<close>

text \<open>What one step of each walk does to the info of the visited node.\<close>

definition increasedInfo :: "MetaObjectInfo \<Rightarrow> MetaObjectInfo" where
  "increasedInfo info =
     info\<lparr>inclusiveCount := inclusiveCount info + 1,
          inclusiveAliveCount := inclusiveAliveCount info + 1,
          invalid := False\<rparr>"

definition decreasedInfo :: "MetaObjectInfo \<Rightarrow> MetaObjectInfo" where
  "decreasedInfo info =
     (if inclusiveAliveCount info - 1 = 0 \<and> \<not> isStatic info
      then info\<lparr>inclusiveAliveCount := inclusiveAliveCount info - 1, invalid := True\<rparr>
      else info\<lparr>inclusiveAliveCount := inclusiveAliveCount info - 1\<rparr>)"

text \<open>
  The two halves of \<^verbatim>\<open>addMetaObject\<close> on a descriptor that is not known: the parent is
  registered first when it is not known, then the descriptor is merged by name or inserted.
\<close>

definition registerParent :: "QMetaObject option \<Rightarrow> bool \<Rightarrow> registry \<Rightarrow> mo \<times> registry" where
  "registerParent super mergeDynamic r =
     (case super of
        None \<Rightarrow> (nullptr, r)
      | Some p \<Rightarrow>
          if \<not> isKnownMetaObject r (Some (address p))
          then addMetaObject p mergeDynamic r
          else (Some (address p), r))"

definition mergeOrInsert :: "addr \<Rightarrow> string \<Rightarrow> bool \<Rightarrow> bool \<Rightarrow> mo \<Rightarrow> registry \<Rightarrow> mo \<times> registry" where
  "mergeOrInsert a name ro mergeDynamic parentMetaObject r1 =
     (if \<not> ro \<and> mergeDynamic then
        (case m_metaObjectNameMap r1 name of
           Some c \<Rightarrow> (c, r1)
         | None \<Rightarrow>
             (Some a,
              insertNode (Some a) name ro mergeDynamic parentMetaObject
                (r1\<lparr>m_metaObjectNameMap := (m_metaObjectNameMap r1)(name \<mapsto> Some a)\<rparr>)))
      else (Some a, insertNode (Some a) name ro mergeDynamic parentMetaObject r1))"

text \<open>
  The part of \<^verbatim>\<open>objectAdded\<close> between \<^verbatim>\<open>addMetaObject\<close> and the walk, and the part of
  \<^verbatim>\<open>objectRemoved\<close> between the test of \<open>selfAliveCount\<close> and the walk.
\<close>

definition trackObject :: "QObject \<Rightarrow> mo \<Rightarrow> registry \<Rightarrow> registry" where
  "trackObject ob canonical r1 =
     (let r2 = r1\<lparr>m_metaObjectMap := (m_metaObjectMap r1)(obj_address ob \<mapsto> canonical)\<rparr>;
          info = infoOf r2 canonical;
          r3 = r2\<lparr>m_metaObjectInfoMap := (m_metaObjectInfoMap r2)(canonical \<mapsto>
                    info\<lparr>selfCount := selfCount info + 1,
                         selfAliveCount := selfAliveCount info + 1\<rparr>)\<rparr>
      in if isDynamic info then addAliveInstance ob canonical r3 else r3)"

definition untrackObject :: "obj \<Rightarrow> mo \<Rightarrow> registry \<Rightarrow> registry" where
  "untrackObject ob canonical r =
     (let r1 = r\<lparr>m_metaObjectMap := (m_metaObjectMap r)(ob := None)\<rparr>;
          info = infoOf r1 canonical;
          r3 = r1\<lparr>m_metaObjectInfoMap := (m_metaObjectInfoMap r1)(canonical \<mapsto>
                    info\<lparr>selfAliveCount := selfAliveCount info - 1\<rparr>)\<rparr>
      in if isDynamic info then removeAliveInstance ob canonical r3 else r3)"

section \<open>Example states and inputs\<close>

text \<open>An object tracked under a node that has no alive instance.\<close>

definition dropped_example :: registry where
  "dropped_example = empty_registry\<lparr>m_metaObjectMap := [10 \<mapsto> Some 3]\<rparr>"


text \<open>
  A framework with the static classes \<open>A\<close> (root), \<open>B\<close> and \<open>C\<close>, and an instance of \<open>C\<close>.
\<close>

definition class_A :: QMetaObject where
  "class_A = QMetaObject 1 ''A'' True None"

definition class_B :: QMetaObject where
  "class_B = QMetaObject 2 ''B'' True (Some class_A)"

definition class_C :: QMetaObject where
  "class_C = QMetaObject 3 ''C'' True (Some class_B)"

definition instance_of_C :: QObject where
  "instance_of_C = QObject 10 class_C False"

text \<open>
  A dynamic class \<open>Item\<close> deriving from the static class \<open>A\<close>, with an instance.
\<close>

definition class_Item :: QMetaObject where
  "class_Item = QMetaObject 4 ''Item'' False (Some class_A)"

definition instance_of_Item :: QObject where
  "instance_of_Item = QObject 11 class_Item True"

text \<open>An instance of \<open>Item\<close> is created and destroyed.\<close>

definition add_then_remove :: "event list" where
  "add_then_remove = [ObjectAdded instance_of_Item, ObjectRemoved 11]"

text \<open>
  Three descriptors named \<open>ScriptObject\<close> outside read-only storage, the third with the
  superclass \<open>A\<close>; the first is registered without merging, then the second with merging.
\<close>

definition script_1 :: QMetaObject where
  "script_1 = QMetaObject 5 ''ScriptObject'' False None"

definition script_2 :: QMetaObject where
  "script_2 = QMetaObject 6 ''ScriptObject'' False None"

definition script_3 :: QMetaObject where
  "script_3 = QMetaObject 7 ''ScriptObject'' False (Some class_A)"

definition unmerged_then_merged :: registry where
  "unmerged_then_merged =
     snd (addMetaObject script_2 True (snd (addMetaObject script_1 False empty_registry)))"

text \<open>
  A dynamic class \<open>Derived\<close> whose superclass \<open>Base\<close> is dynamic as well, and an instance of
  \<open>Derived\<close>; no object has \<open>Base\<close> itself as its descriptor.
\<close>

definition class_Base :: QMetaObject where
  "class_Base = QMetaObject 8 ''Base'' False None"

definition class_Derived :: QMetaObject where
  "class_Derived = QMetaObject 9 ''Derived'' False (Some class_Base)"

definition instance_of_Derived :: QObject where
  "instance_of_Derived = QObject 12 class_Derived True"





text \<open>
  Two dynamic descriptors of one class name \<open>S\<close> at different addresses, both deriving from
  the static class \<open>A\<close>, and an instance of each.
\<close>

definition class_S1 :: QMetaObject where
  "class_S1 = QMetaObject 51 ''S'' False (Some class_A)"

definition class_S2 :: QMetaObject where
  "class_S2 = QMetaObject 52 ''S'' False (Some class_A)"

definition instance_of_S1 :: QObject where
  "instance_of_S1 = QObject 20 class_S1 True"

definition instance_of_S2 :: QObject where
  "instance_of_S2 = QObject 21 class_S2 True"

section \<open>Removal of untracked objects and the defensive drop\<close>

lemma objectRemoved_untracked:
  "m_metaObjectMap r ob = None \<Longrightarrow> objectRemoved ob r = Some r"
  by (simp add: objectRemoved_def ptr_value_def fun_upd_idem)

lemma objectRemoved_dropped:
  assumes "m_metaObjectMap r ob = Some (Some m)" and "selfAliveCount (infoOf r (Some m)) = 0"
  shows "objectRemoved ob r =
           Some (r\<lparr>m_metaObjectMap := (m_metaObjectMap r)(ob := None),
                   m_metaObjectInfoMap :=
                     (m_metaObjectInfoMap r)(Some m \<mapsto> infoOf r (Some m))\<rparr>)"
  using assms by (simp add: objectRemoved_def ptr_value_def Let_def infoOf_def)

lemma infoOf_materialise:
  "infoOf (r\<lparr>m_metaObjectMap := f,
            m_metaObjectInfoMap := (m_metaObjectInfoMap r)(m \<mapsto> infoOf r m)\<rparr>) n = infoOf r n"
  by (simp add: infoOf_def)

lemma dropped_example_facts:
  "m_metaObjectMap dropped_example 11 = None"
  "m_metaObjectMap dropped_example 10 = Some (Some 3)"
  "selfAliveCount (infoOf dropped_example (Some 3)) = 0"
  by (simp_all add: dropped_example_def empty_registry_def infoOf_def default_MetaObjectInfo_def)

text \<open>
  C6: \<^verbatim>\<open>objectRemoved\<close> leaves the whole registry as it is when the object has no entry in
  the object-to-descriptor map.  When the object's node has \<open>selfAliveCount\<close> zero, the
  decrement is dropped: the info of every node (of the node and of its ancestors among
  them) is as before, so no counter is modified, and no signal is emitted.
\<close>

theorem objectRemoved_noop_or_dropped:
  "(m_metaObjectMap r ob = None \<longrightarrow> objectRemoved ob r = Some r) \<and>
   (\<forall>m. m_metaObjectMap r ob = Some (Some m) \<and> selfAliveCount (infoOf r (Some m)) = 0 \<longrightarrow>
      (\<exists>r'. objectRemoved ob r = Some r' \<and> (\<forall>n. infoOf r' n = infoOf r n) \<and>
            emitted r' = emitted r))"
  by (auto simp: objectRemoved_untracked objectRemoved_dropped infoOf_materialise)

theorem objectRemoved_noop_or_dropped_witness:
  "m_metaObjectMap dropped_example 11 = None \<and>
   objectRemoved 11 dropped_example = Some dropped_example \<and>
   m_metaObjectMap dropped_example 10 = Some (Some 3) \<and>
   selfAliveCount (infoOf dropped_example (Some 3)) = 0 \<and>
   (\<exists>r'. objectRemoved 10 dropped_example = Some r' \<and>
         (\<forall>n. infoOf r' n = infoOf dropped_example n) \<and>
         emitted r' = emitted dropped_example)"
  using objectRemoved_noop_or_dropped [of dropped_example 11]
    objectRemoved_noop_or_dropped [of dropped_example 10] dropped_example_facts
  by blast

text \<open>
  C10: the defensive drop is not atomic.  When the object's node has \<open>selfAliveCount\<close>
  zero, the entry of the object has been taken out of the object-to-descriptor map before
  the drop: every info (counters and flags) and the alive-instance pools are as before, the
  other objects are tracked as before, the object itself is no longer tracked, and a second
  \<^verbatim>\<open>objectRemoved\<close> for it changes nothing at all.
\<close>

theorem objectRemoved_drop_untracks:
  assumes "m_metaObjectMap r ob = Some (Some m)"
    and "selfAliveCount (infoOf r (Some m)) = 0"
  shows "\<exists>r'. objectRemoved ob r = Some r' \<and>
              m_metaObjectMap r' = (m_metaObjectMap r)(ob := None) \<and>
              m_metaObjectMap r' \<noteq> m_metaObjectMap r \<and>
              (\<forall>n. infoOf r' n = infoOf r n) \<and>
              m_aliveInstances r' = m_aliveInstances r \<and>
              m_dynamicMetaObjectMap r' = m_dynamicMetaObjectMap r \<and>
              m_canonicalMetaObjectMap r' = m_canonicalMetaObjectMap r \<and>
              emitted r' = emitted r \<and>
              objectRemoved ob r' = Some r'"
proof -
  let ?r' = "r\<lparr>m_metaObjectMap := (m_metaObjectMap r)(ob := None),
               m_metaObjectInfoMap := (m_metaObjectInfoMap r)(Some m \<mapsto> infoOf r (Some m))\<rparr>"
  have res: "objectRemoved ob r = Some ?r'"
    using assms by (rule objectRemoved_dropped)
  have gone: "m_metaObjectMap ?r' ob = None"
    by simp
  have changed: "m_metaObjectMap ?r' \<noteq> m_metaObjectMap r"
  proof
    assume "m_metaObjectMap ?r' = m_metaObjectMap r"
    then have "m_metaObjectMap ?r' ob = m_metaObjectMap r ob" by (rule arg_cong)
    with gone assms(1) show False by simp
  qed
  have again: "objectRemoved ob ?r' = Some ?r'"
    using gone by (rule objectRemoved_untracked)
  have infos: "\<forall>n. infoOf ?r' n = infoOf r n"
    by (simp add: infoOf_materialise)
  show ?thesis
    using res changed again infos by simp
qed

theorem objectRemoved_drop_untracks_witness:
  "m_metaObjectMap dropped_example 10 = Some (Some 3) \<and>
   selfAliveCount (infoOf dropped_example (Some 3)) = 0 \<and>
   (\<exists>r'. objectRemoved 10 dropped_example = Some r' \<and>
         m_metaObjectMap r' 10 = None \<and>
         (\<forall>n. infoOf r' n = infoOf dropped_example n) \<and>
         objectRemoved 10 r' = Some r')"
proof -
  obtain r' where "objectRemoved 10 dropped_example = Some r'"
    and "m_metaObjectMap r' = (m_metaObjectMap dropped_example)(10 := None)"
    and "\<forall>n. infoOf r' n = infoOf dropped_example n"
    and "objectRemoved 10 r' = Some r'"
    using objectRemoved_drop_untracks [of dropped_example 10 3] dropped_example_facts
    by blast
  then show ?thesis
    using dropped_example_facts by auto
qed

section \<open>The fetch latch of the icon repository client\<close>

lemma filePath_result:
  "fst (filePath i c) = ClassesIconsRepository_filePath (m_iconsIndex c) i"
  by (simp add: filePath_def Let_def)

lemma filePath_state:
  "m_iconsIndex (snd (filePath i c)) = m_iconsIndex c \<and>
   indexChanged (snd (filePath i c)) = indexChanged c \<and>
   (m_ready c \<longrightarrow> snd (filePath i c) = c) \<and>
   (\<not> m_ready c \<longrightarrow>
      snd (filePath i c) = c \<or>
      (m_ready (snd (filePath i c)) \<and>
       invoked (snd (filePath i c)) = invoked c @ [''requestIndex'']))"
  by (simp add: filePath_def Let_def requestIndex_def)

lemma filePaths_ready:
  "m_ready c \<Longrightarrow>
   filePaths ids c = (map (ClassesIconsRepository_filePath (m_iconsIndex c)) ids, c)"
proof (induction ids)
  case Nil
  then show ?case by simp
next
  case (Cons i ids)
  have "filePath i c = (ClassesIconsRepository_filePath (m_iconsIndex c) i, c)"
    using Cons.prems filePath_result [of i c] filePath_state [of i c]
    by (cases "filePath i c") simp
  then show ?case using Cons by simp
qed

lemma filePaths_latch:
  "fst (filePaths ids c) = map (ClassesIconsRepository_filePath (m_iconsIndex c)) ids \<and>
   m_iconsIndex (snd (filePaths ids c)) = m_iconsIndex c \<and>
   (snd (filePaths ids c) = c \<or>
    (\<not> m_ready c \<and> m_ready (snd (filePaths ids c)) \<and>
     invoked (snd (filePaths ids c)) = invoked c @ [''requestIndex'']))"
proof (induction ids arbitrary: c)
  case Nil
  then show ?case by simp
next
  case (Cons i ids)
  obtain p c' where step: "filePath i c = (p, c')"
    by (cases "filePath i c")
  have p: "p = ClassesIconsRepository_filePath (m_iconsIndex c) i"
    using filePath_result [of i c] step by simp
  have idx: "m_iconsIndex c' = m_iconsIndex c"
    using filePath_state [of i c] step by simp
  consider (same) "c' = c"
    | (sent) "\<not> m_ready c" "m_ready c'" "invoked c' = invoked c @ [''requestIndex'']"
    using filePath_state [of i c] step by (cases "m_ready c") auto
  then show ?case
  proof cases
    case same
    then show ?thesis
      using Cons.IH [of c] step p by (auto split: prod.splits)
  next
    case sent
    then show ?thesis
      using filePaths_ready [of c' ids] step p idx by simp
  qed
qed

text \<open>
  C9: for every sequence of \<^verbatim>\<open>filePath\<close> calls on one client with no index response in
  between, at most one \<^verbatim>\<open>requestIndex\<close> invocation is sent, and none when the latch was
  set before; the latch, once set, stays set.  Every call returns the value cached for its
  id at once, whether a fetch is outstanding or not, and the cache is not touched.  On a
  new client the whole sequence sends at most one request.
\<close>

theorem filePath_fetches_once:
  "fst (filePaths ids c) = map (ClassesIconsRepository_filePath (m_iconsIndex c)) ids \<and>
   m_iconsIndex (snd (filePaths ids c)) = m_iconsIndex c \<and>
   length (invoked (snd (filePaths ids c))) \<le> length (invoked c) + 1 \<and>
   (m_ready c \<longrightarrow> m_ready (snd (filePaths ids c)) \<and>
                  invoked (snd (filePaths ids c)) = invoked c) \<and>
   (invoked (snd (filePaths ids c)) \<noteq> invoked c \<longrightarrow>
      m_ready (snd (filePaths ids c)) \<and>
      invoked (snd (filePaths ids c)) = invoked c @ [''requestIndex'']) \<and>
   length (invoked (snd (filePaths ids new_client))) \<le> 1"
proof -
  have "length (invoked (snd (filePaths ids new_client))) \<le> length (invoked new_client) + 1"
    using filePaths_latch [of ids new_client] by auto
  then have "length (invoked (snd (filePaths ids new_client))) \<le> 1"
    by (simp add: new_client_def)
  then show ?thesis
    using filePaths_latch [of ids c] by auto
qed

theorem filePath_fetches_once_witness:
  "fst (filePaths [7, 7] new_client) = ['''', ''''] \<and>
   invoked (snd (filePaths [7, 7] new_client)) = [''requestIndex''] \<and>
   m_ready (snd (filePaths [7, 7] new_client)) \<and>
   invoked (snd (filePaths [7, 7] new_client)) \<noteq> invoked new_client \<and>
   fst (filePath 0 (indexReceived [''a/b.png''] (snd (filePaths [7, 7] new_client)))) = ''a/b.png''"
proof -
  have sent: "invoked (snd (filePaths [7, 7] new_client)) \<noteq> invoked new_client"
    by (simp add: filePath_def new_client_def requestIndex_def Let_def
        ClassesIconsRepository_filePath_def)
  have "m_ready (snd (filePaths [7, 7] new_client)) \<and>
        invoked (snd (filePaths [7, 7] new_client)) = invoked new_client @ [''requestIndex'']"
    using filePath_fetches_once [of "[7, 7]" new_client] sent by blast
  moreover have "fst (filePaths [7, 7] new_client) = ['''', '''']"
    using filePath_fetches_once [of "[7, 7]" new_client]
    by (simp add: new_client_def ClassesIconsRepository_filePath_def)
  moreover have "fst (filePath 0 (indexReceived [''a/b.png''] (snd (filePaths [7, 7] new_client))))
      = ''a/b.png''"
    by (simp add: filePath_def indexReceived_def Let_def ClassesIconsRepository_filePath_def)
  ultimately show ?thesis
    using sent by (simp add: new_client_def)
qed

section \<open>Ancestor chains and the two walks\<close>

lemma parentChain_null [simp]: "parentChain cpm nullptr = Some []"
  by (subst parentChain.simps) simp

lemma parentChain_addr:
  "parentChain cpm (Some a) =
     Option.bind (parentChain cpm (ptr_value cpm (Some a))) (\<lambda>ch. Some (Some a # ch))"
  by (subst parentChain.simps) simp

lemma parentChain_Nil: "parentChain cpm m = Some [] \<Longrightarrow> m = nullptr"
  by (cases m) (auto simp: parentChain_addr split: bind_splits)

lemma parentChain_Cons:
  "parentChain cpm m = Some (x # ch) \<Longrightarrow>
   m = x \<and> x \<noteq> nullptr \<and> parentChain cpm (ptr_value cpm x) = Some ch"
  by (cases m) (auto simp: parentChain_addr split: bind_splits)

lemma parentChain_no_null: "parentChain cpm m = Some ch \<Longrightarrow> nullptr \<notin> set ch"
proof (induction ch arbitrary: m)
  case Nil
  then show ?case by simp
next
  case (Cons x ch)
  then show ?case using parentChain_Cons [OF Cons.prems] by auto
qed

lemma parentChain_suffix:
  "parentChain cpm m = Some ch \<Longrightarrow> x \<in> set ch \<Longrightarrow>
   \<exists>pre ch'. ch = pre @ ch' \<and> parentChain cpm x = Some ch'"
proof (induction ch arbitrary: m)
  case Nil
  then show ?case by simp
next
  case (Cons y ch)
  from parentChain_Cons [OF Cons.prems(1)]
  have m: "m = y" and rest: "parentChain cpm (ptr_value cpm y) = Some ch" by auto
  show ?case
  proof (cases "x = y")
    case True
    have "y # ch = [] @ (y # ch) \<and> parentChain cpm x = Some (y # ch)"
      using True Cons.prems(1) m by simp
    then show ?thesis by blast
  next
    case False
    then have "x \<in> set ch" using Cons.prems(2) by simp
    from Cons.IH [OF rest this] obtain pre ch' where "ch = pre @ ch'" "parentChain cpm x = Some ch'"
      by blast
    then have "y # ch = (y # pre) @ ch' \<and> parentChain cpm x = Some ch'" by simp
    then show ?thesis by blast
  qed
qed

lemma parentChain_distinct: "parentChain cpm m = Some ch \<Longrightarrow> distinct ch"
proof (induction ch arbitrary: m)
  case Nil
  then show ?case by simp
next
  case (Cons y ch)
  from parentChain_Cons [OF Cons.prems]
  have m: "m = y" and rest: "parentChain cpm (ptr_value cpm y) = Some ch" by auto
  have "y \<notin> set ch"
  proof
    assume "y \<in> set ch"
    from parentChain_suffix [OF rest this] obtain pre ch' where
      "ch = pre @ ch'" "parentChain cpm y = Some ch'" by blast
    with Cons.prems m have "y # ch = ch'" "length ch' \<le> length ch" by auto
    then show False by auto
  qed
  with Cons.IH [OF rest] show ?case by simp
qed

lemma parentChain_head: "parentChain cpm (Some a) = Some ch \<Longrightarrow> \<exists>ch'. ch = Some a # ch'"
  by (auto simp: parentChain_addr split: bind_splits)

text \<open>The two walks visit exactly the chain.\<close>

lemma increaseStep_cpm [simp]: "m_childParentMap (increaseStep x r) = m_childParentMap r"
  by (simp add: increaseStep_def Let_def)

lemma decreaseStep_cpm [simp]: "m_childParentMap (decreaseStep x r) = m_childParentMap r"
  by (simp add: decreaseStep_def Let_def)

lemma increaseInclusiveCounts_chain:
  "parentChain (m_childParentMap r) m = Some ch \<Longrightarrow>
   increaseInclusiveCounts m r = Some (fold increaseStep ch r)"
proof (induction ch arbitrary: m r)
  case Nil
  then have "m = nullptr" by (rule parentChain_Nil)
  then show ?case by (subst increaseInclusiveCounts.simps) simp
next
  case (Cons x ch)
  from parentChain_Cons [OF Cons.prems]
  have m: "m = x" and x: "x \<noteq> nullptr"
    and rest: "parentChain (m_childParentMap r) (ptr_value (m_childParentMap r) x) = Some ch"
    by auto
  have "increaseInclusiveCounts (parentOf (increaseStep x r) x) (increaseStep x r)
          = Some (fold increaseStep ch (increaseStep x r))"
    by (rule Cons.IH) (simp add: parentOf_def rest)
  then show ?case
    using m x by (subst increaseInclusiveCounts.simps) auto
qed

lemma decreaseInclusiveCounts_chain:
  "parentChain (m_childParentMap r) m = Some ch \<Longrightarrow>
   decreaseInclusiveCounts m r = Some (fold decreaseStep ch r)"
proof (induction ch arbitrary: m r)
  case Nil
  then have "m = nullptr" by (rule parentChain_Nil)
  then show ?case by (subst decreaseInclusiveCounts.simps) simp
next
  case (Cons x ch)
  from parentChain_Cons [OF Cons.prems]
  have m: "m = x" and x: "x \<noteq> nullptr"
    and rest: "parentChain (m_childParentMap r) (ptr_value (m_childParentMap r) x) = Some ch"
    by auto
  have "decreaseInclusiveCounts (parentOf (decreaseStep x r) x) (decreaseStep x r)
          = Some (fold decreaseStep ch (decreaseStep x r))"
    by (rule Cons.IH) (simp add: parentOf_def rest)
  then show ?case
    using m x by (subst decreaseInclusiveCounts.simps) auto
qed

section \<open>The effect of the walks on the infos\<close>

lemma increaseStep_eq:
  "increaseStep x r =
     r\<lparr>m_metaObjectInfoMap := (m_metaObjectInfoMap r)(x \<mapsto> increasedInfo (infoOf r x)),
       emitted := emitted r @ [DataChanged x]\<rparr>"
  by (simp add: increaseStep_def increasedInfo_def Let_def)

lemma decreaseStep_eq:
  "decreaseStep x r =
     r\<lparr>m_metaObjectInfoMap := (m_metaObjectInfoMap r)(x \<mapsto> decreasedInfo (infoOf r x)),
       emitted := emitted r @ [DataChanged x]\<rparr>"
  by (simp add: decreaseStep_def decreasedInfo_def Let_def)

lemma fold_increaseStep_frame:
  "m_childParentMap (fold increaseStep ch r) = m_childParentMap r \<and>
   m_parentChildMap (fold increaseStep ch r) = m_parentChildMap r \<and>
   m_metaObjectMap (fold increaseStep ch r) = m_metaObjectMap r \<and>
   m_metaObjectNameMap (fold increaseStep ch r) = m_metaObjectNameMap r \<and>
   m_aliveInstances (fold increaseStep ch r) = m_aliveInstances r \<and>
   m_dynamicMetaObjectMap (fold increaseStep ch r) = m_dynamicMetaObjectMap r \<and>
   m_canonicalMetaObjectMap (fold increaseStep ch r) = m_canonicalMetaObjectMap r \<and>
   emitted (fold increaseStep ch r) = emitted r @ map DataChanged ch"
  by (induction ch arbitrary: r) (simp_all add: increaseStep_eq)

lemma fold_decreaseStep_frame:
  "m_childParentMap (fold decreaseStep ch r) = m_childParentMap r \<and>
   m_parentChildMap (fold decreaseStep ch r) = m_parentChildMap r \<and>
   m_metaObjectMap (fold decreaseStep ch r) = m_metaObjectMap r \<and>
   m_metaObjectNameMap (fold decreaseStep ch r) = m_metaObjectNameMap r \<and>
   m_aliveInstances (fold decreaseStep ch r) = m_aliveInstances r \<and>
   m_dynamicMetaObjectMap (fold decreaseStep ch r) = m_dynamicMetaObjectMap r \<and>
   m_canonicalMetaObjectMap (fold decreaseStep ch r) = m_canonicalMetaObjectMap r \<and>
   emitted (fold decreaseStep ch r) = emitted r @ map DataChanged ch"
  by (induction ch arbitrary: r) (simp_all add: decreaseStep_eq)

lemma fold_increaseStep_info:
  "distinct ch \<Longrightarrow>
   m_metaObjectInfoMap (fold increaseStep ch r) n =
     (if n \<in> set ch then Some (increasedInfo (infoOf r n)) else m_metaObjectInfoMap r n)"
proof (induction ch arbitrary: r)
  case Nil
  then show ?case by simp
next
  case (Cons x ch)
  then show ?case by (auto simp: increaseStep_eq infoOf_def)
qed

lemma fold_decreaseStep_info:
  "distinct ch \<Longrightarrow>
   m_metaObjectInfoMap (fold decreaseStep ch r) n =
     (if n \<in> set ch then Some (decreasedInfo (infoOf r n)) else m_metaObjectInfoMap r n)"
proof (induction ch arbitrary: r)
  case Nil
  then show ?case by simp
next
  case (Cons x ch)
  then show ?case by (auto simp: decreaseStep_eq infoOf_def)
qed

lemma fold_increaseStep_infoOf:
  "distinct ch \<Longrightarrow>
   infoOf (fold increaseStep ch r) n =
     (if n \<in> set ch then increasedInfo (infoOf r n) else infoOf r n)"
  by (simp add: infoOf_def [of "fold increaseStep ch r"] fold_increaseStep_info)
     (simp add: infoOf_def)

lemma fold_decreaseStep_infoOf:
  "distinct ch \<Longrightarrow>
   infoOf (fold decreaseStep ch r) n =
     (if n \<in> set ch then decreasedInfo (infoOf r n) else infoOf r n)"
  by (simp add: infoOf_def [of "fold decreaseStep ch r"] fold_decreaseStep_info)
     (simp add: infoOf_def)

section \<open>Chains under growth of the graph\<close>

lemma parentChain_unknown:
  "cpm (Some a) = None \<Longrightarrow> parentChain cpm (Some a) = Some [Some a]"
  by (simp add: parentChain_addr ptr_value_def)

lemma parentChain_extends:
  assumes K: "\<forall>d p. cpm d = Some (Some p) \<longrightarrow> cpm (Some p) \<noteq> None"
    and same: "\<forall>x. cpm x \<noteq> None \<longrightarrow> cpm' x = cpm x"
  shows "parentChain cpm m = Some ch \<Longrightarrow> cpm m \<noteq> None \<or> m = nullptr \<Longrightarrow>
         parentChain cpm' m = Some ch"
proof (induction ch arbitrary: m)
  case Nil
  then have "m = nullptr" using parentChain_Nil by blast
  then show ?case by simp
next
  case (Cons x ch)
  from parentChain_Cons [OF Cons.prems(1)]
  have m: "m = x" and x: "x \<noteq> nullptr"
    and rest: "parentChain cpm (ptr_value cpm x) = Some ch"
    by auto
  obtain a where a: "x = Some a" using x by (cases x) auto
  obtain q where q: "cpm x = Some q" using Cons.prems(2) m x by auto
  have pq: "ptr_value cpm x = q" "ptr_value cpm' x = q"
    using q same by (auto simp: ptr_value_def)
  have "cpm q \<noteq> None \<or> q = nullptr"
    using K q by (cases q) auto
  then have "parentChain cpm' q = Some ch"
    using Cons.IH [of q] rest pq by simp
  then show ?case
    using m a pq by (simp add: parentChain_addr)
qed

lemma inv_graph_insert:
  assumes G: "inv_graph r"
    and fresh: "m_childParentMap r (Some a) = None"
    and pm: "pm = nullptr \<or> m_childParentMap r pm \<noteq> None"
    and cpm': "m_childParentMap r' = (m_childParentMap r)(Some a \<mapsto> pm)"
  shows "inv_graph r'"
proof -
  let ?cpm = "m_childParentMap r" and ?cpm' = "m_childParentMap r'"
  from G have N: "?cpm nullptr = None"
    and K: "\<forall>d p. ?cpm d = Some (Some p) \<longrightarrow> ?cpm (Some p) \<noteq> None"
    and T: "\<And>m. parentChain ?cpm m \<noteq> None"
    by (auto simp: inv_graph_def)
  have same: "\<forall>x. ?cpm x \<noteq> None \<longrightarrow> ?cpm' x = ?cpm x"
    using fresh cpm' by auto
  have N': "?cpm' nullptr = None"
    using N cpm' by simp
  have K': "\<forall>d p. ?cpm' d = Some (Some p) \<longrightarrow> ?cpm' (Some p) \<noteq> None"
    using K pm cpm' by (auto split: if_splits)
  have T': "parentChain ?cpm' m \<noteq> None" for m
  proof (cases m)
    case None
    then show ?thesis by simp
  next
    case (Some b)
    show ?thesis
    proof (cases "?cpm m")
      case (Some q)
      obtain ch where "parentChain ?cpm m = Some ch" using T [of m] by auto
      then have "parentChain ?cpm' m = Some ch"
        using parentChain_extends [OF K same] Some by blast
      then show ?thesis by simp
    next
      case None
      show ?thesis
      proof (cases "b = a")
        case False
        then have "?cpm' (Some b) = None" using None \<open>m = Some b\<close> cpm' by simp
        then show ?thesis using \<open>m = Some b\<close> by (simp add: parentChain_unknown)
      next
        case True
        obtain ch where ch: "parentChain ?cpm pm = Some ch" using T [of pm] by auto
        then have "parentChain ?cpm' pm = Some ch"
          using parentChain_extends [OF K same] pm by blast
        moreover have "ptr_value ?cpm' (Some a) = pm"
          using cpm' by (simp add: ptr_value_def)
        ultimately show ?thesis
          using True \<open>m = Some b\<close> by (simp add: parentChain_addr)
      qed
    qed
  qed
  show ?thesis
    using N' K' T' by (auto simp: inv_graph_def)
qed

section \<open>Insertion of a node\<close>

lemma insertedNodes_append [simp]:
  "insertedNodes (xs @ ys) = insertedNodes xs @ insertedNodes ys"
  by (induction xs rule: insertedNodes.induct) simp_all

lemma dataChanges_append [simp]:
  "dataChanges (xs @ ys) = dataChanges xs @ dataChanges ys"
  by (induction xs rule: dataChanges.induct) simp_all

lemma dataChanges_map [simp]: "dataChanges (map DataChanged ch) = ch"
  by (induction ch) simp_all

lemma insertedNodes_map [simp]: "insertedNodes (map DataChanged ch) = []"
  by (induction ch) simp_all

lemma extends_refl: "extends r r"
  by (simp add: extends_def)

lemma extends_trans:
  assumes a: "extends r r1" and b: "extends r1 r2"
  shows "extends r r2"
proof -
  obtain sigs1 where s1: "emitted r1 = emitted r @ sigs1" "dataChanges sigs1 = []"
    using a by (auto simp: extends_def)
  obtain sigs2 where s2: "emitted r2 = emitted r1 @ sigs2" "dataChanges sigs2 = []"
    using b by (auto simp: extends_def)
  have sig: "\<exists>sigs. emitted r2 = emitted r @ sigs \<and> dataChanges sigs = []"
    using s1 s2 by (intro exI [of _ "sigs1 @ sigs2"]) simp
  have known: "\<forall>x. m_childParentMap r x \<noteq> None \<longrightarrow>
           m_childParentMap r2 x = m_childParentMap r x \<and>
           m_metaObjectInfoMap r2 x = m_metaObjectInfoMap r x"
    using a b by (simp add: extends_def)
  have counters: "\<forall>x. selfCount (infoOf r2 x) = selfCount (infoOf r x) \<and>
           inclusiveCount (infoOf r2 x) = inclusiveCount (infoOf r x) \<and>
           selfAliveCount (infoOf r2 x) = selfAliveCount (infoOf r x) \<and>
           inclusiveAliveCount (infoOf r2 x) = inclusiveAliveCount (infoOf r x) \<and>
           invalid (infoOf r2 x) = invalid (infoOf r x)"
    using a b by (simp add: extends_def)
  have names: "\<forall>n c. m_metaObjectNameMap r n = Some c \<longrightarrow> m_metaObjectNameMap r2 n = Some c"
    using a b by (simp add: extends_def)
  have rest: "m_metaObjectMap r2 = m_metaObjectMap r \<and>
      m_aliveInstances r2 = m_aliveInstances r \<and>
      m_dynamicMetaObjectMap r2 = m_dynamicMetaObjectMap r \<and>
      m_canonicalMetaObjectMap r2 = m_canonicalMetaObjectMap r"
    using a b by (simp add: extends_def)
  show ?thesis
    unfolding extends_def using known counters names rest sig by blast
qed

text \<open>
  The registry \<open>r'\<close> is \<open>r\<close> after the insertion of the unknown node \<open>Some a\<close> under a
  parent that is null or known, the canonical name of the node recorded or not.
\<close>

lemma insertNode_fields:
  "m_childParentMap (insertNode m name ro mg pm r) = (m_childParentMap r)(m \<mapsto> pm) \<and>
   m_metaObjectInfoMap (insertNode m name ro mg pm r) =
     (m_metaObjectInfoMap r)(m \<mapsto>
        (infoOf r m)\<lparr>className := name, isStatic := ro, isDynamic := (\<not> ro \<and> mg)\<rparr>) \<and>
   m_metaObjectMap (insertNode m name ro mg pm r) = m_metaObjectMap r \<and>
   m_metaObjectNameMap (insertNode m name ro mg pm r) = m_metaObjectNameMap r \<and>
   m_aliveInstances (insertNode m name ro mg pm r) = m_aliveInstances r \<and>
   m_dynamicMetaObjectMap (insertNode m name ro mg pm r) = m_dynamicMetaObjectMap r \<and>
   m_canonicalMetaObjectMap (insertNode m name ro mg pm r) = m_canonicalMetaObjectMap r \<and>
   emitted (insertNode m name ro mg pm r) =
     emitted r @ [BeforeMetaObjectAdded m, AfterMetaObjectAdded m]"
  by (simp add: insertNode_def)

lemma infoOf_name_update [simp]:
  "infoOf (r\<lparr>m_metaObjectNameMap := nm\<rparr>) = infoOf r"
  by (rule ext) (simp add: infoOf_def)

lemma insertNode_extends:
  assumes fresh: "m_childParentMap r (Some a) = None"
    and nm: "nm = m_metaObjectNameMap r \<or>
             (m_metaObjectNameMap r name = None \<and> nm = (m_metaObjectNameMap r)(name \<mapsto> Some a))"
  shows "extends r (insertNode (Some a) name ro mg pm (r\<lparr>m_metaObjectNameMap := nm\<rparr>))"
proof -
  let ?r' = "insertNode (Some a) name ro mg pm (r\<lparr>m_metaObjectNameMap := nm\<rparr>)"
  have f: "m_childParentMap ?r' = (m_childParentMap r)(Some a \<mapsto> pm)"
    "m_metaObjectInfoMap ?r' = (m_metaObjectInfoMap r)(Some a \<mapsto>
        (infoOf r (Some a))\<lparr>className := name, isStatic := ro, isDynamic := (\<not> ro \<and> mg)\<rparr>)"
    "m_metaObjectMap ?r' = m_metaObjectMap r"
    "m_metaObjectNameMap ?r' = nm"
    "m_aliveInstances ?r' = m_aliveInstances r"
    "m_dynamicMetaObjectMap ?r' = m_dynamicMetaObjectMap r"
    "m_canonicalMetaObjectMap ?r' = m_canonicalMetaObjectMap r"
    "emitted ?r' = emitted r @ [BeforeMetaObjectAdded (Some a), AfterMetaObjectAdded (Some a)]"
    by (simp_all add: insertNode_fields)
  have known: "\<forall>x. m_childParentMap r x \<noteq> None \<longrightarrow>
           m_childParentMap ?r' x = m_childParentMap r x \<and>
           m_metaObjectInfoMap ?r' x = m_metaObjectInfoMap r x"
    using fresh by (auto simp: f)
  have info: "infoOf ?r' x =
      (if x = Some a
       then (infoOf r (Some a))\<lparr>className := name, isStatic := ro, isDynamic := (\<not> ro \<and> mg)\<rparr>
       else infoOf r x)" for x
    by (simp add: infoOf_def [of ?r'] f) (simp add: infoOf_def)
  have counters: "\<forall>x. selfCount (infoOf ?r' x) = selfCount (infoOf r x) \<and>
           inclusiveCount (infoOf ?r' x) = inclusiveCount (infoOf r x) \<and>
           selfAliveCount (infoOf ?r' x) = selfAliveCount (infoOf r x) \<and>
           inclusiveAliveCount (infoOf ?r' x) = inclusiveAliveCount (infoOf r x) \<and>
           invalid (infoOf ?r' x) = invalid (infoOf r x)"
    by (simp add: info)
  have names: "\<forall>n c. m_metaObjectNameMap r n = Some c \<longrightarrow> m_metaObjectNameMap ?r' n = Some c"
    using nm by (auto simp: f)
  have sig: "\<exists>sigs. emitted ?r' = emitted r @ sigs \<and> dataChanges sigs = []"
    by (intro exI [of _ "[BeforeMetaObjectAdded (Some a), AfterMetaObjectAdded (Some a)]"])
       (simp add: f)
  show ?thesis
    unfolding extends_def using known counters names sig f(3,5,6,7) by blast
qed


lemma take_append_le: "i < length L \<Longrightarrow> take i (L @ [m]) = take i L"
  by simp

lemma insertNode_Inv:
  assumes I: "Inv r"
    and fresh: "m_childParentMap r (Some a) = None"
    and pm: "pm = nullptr \<or> m_childParentMap r pm \<noteq> None"
    and nm: "nm = m_metaObjectNameMap r \<or>
             (m_metaObjectNameMap r name = None \<and> nm = (m_metaObjectNameMap r)(name \<mapsto> Some a))"
  shows "Inv (insertNode (Some a) name ro mg pm (r\<lparr>m_metaObjectNameMap := nm\<rparr>))"
proof -
  let ?r' = "insertNode (Some a) name ro mg pm (r\<lparr>m_metaObjectNameMap := nm\<rparr>)"
  let ?L = "insertedNodes (emitted r)"
  have f: "m_childParentMap ?r' = (m_childParentMap r)(Some a \<mapsto> pm)"
    "m_metaObjectInfoMap ?r' = (m_metaObjectInfoMap r)(Some a \<mapsto>
        (infoOf r (Some a))\<lparr>className := name, isStatic := ro, isDynamic := (\<not> ro \<and> mg)\<rparr>)"
    "m_metaObjectMap ?r' = m_metaObjectMap r"
    "m_metaObjectNameMap ?r' = nm"
    "m_aliveInstances ?r' = m_aliveInstances r"
    "emitted ?r' = emitted r @ [BeforeMetaObjectAdded (Some a), AfterMetaObjectAdded (Some a)]"
    by (simp_all add: insertNode_fields)
  from I have G: "inv_graph r" and R: "inv_refs r" and S: "inv_static r"
    and O: "inv_order r" and P: "inv_pools r"
    by (simp_all add: Inv_def)
  have noinfo: "m_metaObjectInfoMap r (Some a) = None"
    using R fresh by (auto simp: inv_refs_def)
  then have dflt: "infoOf r (Some a) = default_MetaObjectInfo"
    by (simp add: infoOf_def)
  have info: "infoOf ?r' x =
      (if x = Some a
       then default_MetaObjectInfo\<lparr>className := name, isStatic := ro, isDynamic := (\<not> ro \<and> mg)\<rparr>
       else infoOf r x)" for x
    by (simp add: infoOf_def [of ?r'] f dflt) (simp add: infoOf_def)
  have G': "inv_graph ?r'"
    using G fresh pm f(1) by (rule inv_graph_insert)
  have R': "inv_refs ?r'"
    unfolding inv_refs_def
  proof (intro conjI allI impI)
    fix n c assume "m_metaObjectNameMap ?r' n = Some c"
    then have "nm n = Some c" by (simp add: f)
    then have "m_metaObjectNameMap r n = Some c \<or> c = Some a"
      using nm by (auto split: if_splits)
    then show "c \<noteq> nullptr" "m_childParentMap ?r' c \<noteq> None"
      using R by (auto simp: inv_refs_def f)
  next
    fix m assume "m_metaObjectInfoMap ?r' m \<noteq> None"
    then show "m_childParentMap ?r' m \<noteq> None"
      using R by (auto simp: inv_refs_def f split: if_splits)
  next
    fix ob m assume "m_metaObjectMap ?r' ob = Some m"
    then show "m \<noteq> nullptr" "m_childParentMap ?r' m \<noteq> None"
      using R by (auto simp: inv_refs_def f)
  qed
  have S': "inv_static ?r'"
    using S by (auto simp: inv_static_def info default_MetaObjectInfo_def)
  have P': "inv_pools ?r'"
    unfolding inv_pools_def
  proof (intro allI conjI impI)
    fix m pool assume "m_aliveInstances ?r' m = Some pool"
    then show "sorted pool" using P by (simp add: inv_pools_def f)
  next
    fix m assume pool: "m_aliveInstances ?r' m \<noteq> None"
    then have d: "isDynamic (infoOf r m)" using P by (simp add: inv_pools_def f)
    then have "m \<noteq> Some a" using dflt by (auto simp: default_MetaObjectInfo_def)
    then show "isDynamic (infoOf ?r' m)" using d by (simp add: info)
  next
    fix m show "\<not> (isStatic (infoOf ?r' m) \<and> isDynamic (infoOf ?r' m))"
      using P by (auto simp: inv_pools_def info)
  qed
  from O have dL: "distinct ?L" and sL: "set ?L = {m. m_childParentMap r m \<noteq> None}"
    and pL: "\<And>i. i < length ?L \<Longrightarrow>
          \<exists>p. m_childParentMap r (?L ! i) = Some p \<and> (p = nullptr \<or> p \<in> set (take i ?L))"
    by (simp_all add: inv_order_def Let_def)
  have L': "insertedNodes (emitted ?r') = ?L @ [Some a]"
    by (simp add: f)
  have notin: "Some a \<notin> set ?L"
    using sL fresh by simp
  have O': "inv_order ?r'"
    unfolding inv_order_def Let_def L'
  proof (intro conjI allI impI)
    show "distinct (?L @ [Some a])" using dL notin by simp
    show "set (?L @ [Some a]) = {m. m_childParentMap ?r' m \<noteq> None}"
      using sL by (auto simp: f)
  next
    fix i assume i: "i < length (?L @ [Some a])"
    show "\<exists>p. m_childParentMap ?r' ((?L @ [Some a]) ! i) = Some p \<and>
              (p = nullptr \<or> p \<in> set (take i (?L @ [Some a])))"
    proof (cases "i < length ?L")
      case True
      then have "?L ! i \<in> set ?L" by simp
      then have ne: "?L ! i \<noteq> Some a" using notin by auto
      from pL [OF True] obtain p where
        "m_childParentMap r (?L ! i) = Some p" "p = nullptr \<or> p \<in> set (take i ?L)" by blast
      then show ?thesis using True ne by (simp add: f nth_append)
    next
      case False
      then have i': "i = length ?L" using i by simp
      have "pm = nullptr \<or> pm \<in> set ?L" using pm sL by auto
      then show ?thesis using i' by (simp add: f)
    qed
  qed
  show ?thesis
    using G' R' S' O' P' by (simp add: Inv_def)
qed

section \<open>addMetaObject keeps the invariants\<close>

lemma addMetaObject_unfold:
  "addMetaObject d mg r =
     (if isKnownMetaObject r (Some (address d)) then (Some (address d), r)
      else case registerParent (superClass d) mg r of
             (pm, r1) \<Rightarrow> mergeOrInsert (address d) (mo_className d) (isReadOnlyData d) mg pm r1)"
  by (cases d) (simp add: registerParent_def mergeOrInsert_def)

declare addMetaObject.simps [simp del]

lemma superClasses_head: "d \<in> set (superClasses d)"
  by (induction d rule: superClasses.induct) simp_all

lemma wf_QMetaObject_super:
  "wf_QMetaObject d \<Longrightarrow> superClass d = Some p \<Longrightarrow>
   wf_QMetaObject p \<and> address d \<notin> address ` set (superClasses p) \<and>
   set (superClasses p) \<subseteq> set (superClasses d)"
  by (cases d) (auto simp: wf_QMetaObject_def)

lemma mergeOrInsert_Inv:
  assumes I: "Inv r1"
    and fresh: "m_childParentMap r1 (Some a) = None"
    and pm: "pm = nullptr \<or> m_childParentMap r1 pm \<noteq> None"
    and res: "mergeOrInsert a name ro mg pm r1 = (m, r')"
  shows "Inv r' \<and> extends r1 r' \<and> m \<noteq> nullptr \<and> m_childParentMap r' m \<noteq> None \<and>
         (\<forall>x. m_childParentMap r' x \<noteq> None \<longrightarrow> m_childParentMap r1 x \<noteq> None \<or> x = Some a)"
proof -
  have same: "r1\<lparr>m_metaObjectNameMap := m_metaObjectNameMap r1\<rparr> = r1" by simp
  consider (merged) c where "\<not> ro" mg "m_metaObjectNameMap r1 name = Some c" "m = c" "r' = r1"
    | (canonical) "\<not> ro" mg "m_metaObjectNameMap r1 name = None" "m = Some a"
        "r' = insertNode (Some a) name ro mg pm
                (r1\<lparr>m_metaObjectNameMap := (m_metaObjectNameMap r1)(name \<mapsto> Some a)\<rparr>)"
    | (plain) "m = Some a"
        "r' = insertNode (Some a) name ro mg pm (r1\<lparr>m_metaObjectNameMap := m_metaObjectNameMap r1\<rparr>)"
    using res by (auto simp: mergeOrInsert_def split: if_splits option.splits)
  then show ?thesis
  proof cases
    case merged
    have "c \<noteq> nullptr \<and> m_childParentMap r1 c \<noteq> None"
      using I merged(3) by (auto simp: Inv_def inv_refs_def)
    then show ?thesis using merged I by (simp add: extends_refl)
  next
    case canonical
    have "Inv r'" unfolding canonical(5)
      using I fresh pm by (rule insertNode_Inv) (simp add: canonical(3))
    moreover have "extends r1 r'" unfolding canonical(5)
      using fresh by (rule insertNode_extends) (simp add: canonical(3))
    moreover have "m_childParentMap r' = (m_childParentMap r1)(Some a \<mapsto> pm)"
      by (simp add: canonical(5) insertNode_fields)
    ultimately show ?thesis using canonical(4) by (auto split: if_splits)
  next
    case plain
    have "Inv r'" unfolding plain(2)
      using I fresh pm by (rule insertNode_Inv) simp
    moreover have "extends r1 r'" unfolding plain(2)
      using fresh by (rule insertNode_extends) simp
    moreover have "m_childParentMap r' = (m_childParentMap r1)(Some a \<mapsto> pm)"
      by (simp add: plain(2) insertNode_fields)
    ultimately show ?thesis using plain(1) by (auto split: if_splits)
  qed
qed

lemma addMetaObject_Inv:
  "Inv r \<Longrightarrow> wf_QMetaObject d \<Longrightarrow> addMetaObject d mg r = (m, r') \<Longrightarrow>
   Inv r' \<and> extends r r' \<and> m \<noteq> nullptr \<and> m_childParentMap r' m \<noteq> None \<and>
   (\<forall>x. m_childParentMap r' x \<noteq> None \<longrightarrow>
        m_childParentMap r x \<noteq> None \<or> x \<in> Some ` address ` set (superClasses d))"
proof (induction d mg r arbitrary: m r' rule: addMetaObject.induct)
  case (1 a name ro super mg r)
  let ?d = "QMetaObject a name ro super"
  show ?case
  proof (cases "isKnownMetaObject r (Some a)")
    case True
    then have "m = Some a" "r' = r"
      using "1.prems"(3) by (simp_all add: addMetaObject_unfold [of ?d])
    then show ?thesis
      using True "1.prems"(1) by (simp add: extends_refl isKnownMetaObject_def)
  next
    case False
    then have fresh: "m_childParentMap r (Some a) = None"
      by (simp add: isKnownMetaObject_def)
    obtain pm r1 where par: "registerParent super mg r = (pm, r1)"
      by (cases "registerParent super mg r")
    have res: "mergeOrInsert a name ro mg pm r1 = (m, r')"
      using "1.prems"(3) False par by (simp add: addMetaObject_unfold [of ?d])
    have stage: "Inv r1 \<and> extends r r1 \<and> (pm = nullptr \<or> m_childParentMap r1 pm \<noteq> None) \<and>
        (\<forall>x. m_childParentMap r1 x \<noteq> None \<longrightarrow>
            m_childParentMap r x \<noteq> None \<or>
            (x \<noteq> Some a \<and> x \<in> Some ` address ` set (superClasses ?d)))"
    proof (cases super)
      case None
      then show ?thesis using par "1.prems"(1) by (simp add: registerParent_def extends_refl)
    next
      case (Some p)
      have wfp: "wf_QMetaObject p" and notin: "a \<notin> address ` set (superClasses p)"
        and sub: "set (superClasses p) \<subseteq> set (superClasses ?d)"
        using wf_QMetaObject_super [OF "1.prems"(2), of p] Some by auto
      show ?thesis
      proof (cases "isKnownMetaObject r (Some (address p))")
        case True
        then show ?thesis
          using par Some "1.prems"(1) by (simp add: registerParent_def extends_refl isKnownMetaObject_def)
      next
        case unknown: False
        then have "addMetaObject p mg r = (pm, r1)"
          using par Some by (simp add: registerParent_def)
        from "1.IH" [OF False Some unknown "1.prems"(1) wfp this]
        have ih: "Inv r1" "extends r r1" "pm \<noteq> nullptr" "m_childParentMap r1 pm \<noteq> None"
          "\<forall>x. m_childParentMap r1 x \<noteq> None \<longrightarrow>
             m_childParentMap r x \<noteq> None \<or> x \<in> Some ` address ` set (superClasses p)"
          by auto
        have up: "x \<noteq> Some a \<and> x \<in> Some ` address ` set (superClasses ?d)"
          if "x \<in> Some ` address ` set (superClasses p)" for x
          using that notin sub by blast
        have "m_childParentMap r x \<noteq> None \<or>
              (x \<noteq> Some a \<and> x \<in> Some ` address ` set (superClasses ?d))"
          if "m_childParentMap r1 x \<noteq> None" for x
          using ih(5) that up [of x] by fast
        then show ?thesis using ih(1,2,4) by simp
      qed
    qed
    then have I1: "Inv r1" and e1: "extends r r1"
      and pm1: "pm = nullptr \<or> m_childParentMap r1 pm \<noteq> None"
      and new1: "\<And>x. m_childParentMap r1 x \<noteq> None \<Longrightarrow>
            m_childParentMap r x \<noteq> None \<or>
            (x \<noteq> Some a \<and> x \<in> Some ` address ` set (superClasses ?d))"
      by blast+
    have fresh1: "m_childParentMap r1 (Some a) = None"
    proof (rule ccontr)
      assume "m_childParentMap r1 (Some a) \<noteq> None"
      from new1 [OF this] show False using fresh by simp
    qed
    from mergeOrInsert_Inv [OF I1 fresh1 pm1 res]
    have fin: "Inv r'" "extends r1 r'" "m \<noteq> nullptr" "m_childParentMap r' m \<noteq> None"
      and new': "\<And>x. m_childParentMap r' x \<noteq> None \<Longrightarrow> m_childParentMap r1 x \<noteq> None \<or> x = Some a"
      by simp_all
    have e: "extends r r'" using e1 fin(2) by (rule extends_trans)
    have head: "Some a \<in> Some ` address ` set (superClasses ?d)"
      using superClasses_head [of ?d] by force
    have "m_childParentMap r x \<noteq> None \<or> x \<in> Some ` address ` set (superClasses ?d)"
      if "m_childParentMap r' x \<noteq> None" for x
    proof (cases "x = Some a")
      case True
      then show ?thesis using head by simp
    next
      case False
      then have "m_childParentMap r1 x \<noteq> None" using new' [OF that] by simp
      from new1 [OF this] show ?thesis by fast
    qed
    then show ?thesis using fin e by simp
  qed
qed

section \<open>The sorted pools\<close>

lemma lower_bound_take: "take (lower_bound xs v) xs = takeWhile (\<lambda>x. x < v) xs"
  by (simp add: lower_bound_def takeWhile_eq_take [symmetric])

lemma lower_bound_drop: "drop (lower_bound xs v) xs = dropWhile (\<lambda>x. x < v) xs"
  by (simp add: lower_bound_def dropWhile_eq_drop [symmetric])

lemma sorted_dropWhile_ge:
  "sorted xs \<Longrightarrow> y \<in> set (dropWhile (\<lambda>x. x < v) xs) \<Longrightarrow> v \<le> (y :: mo)"
proof (induction xs)
  case Nil
  then show ?case by simp
next
  case (Cons x xs)
  show ?case
  proof (cases "x < v")
    case True
    then show ?thesis using Cons by simp
  next
    case False
    then have "v \<le> x" by simp
    moreover have "y = x \<or> x \<le> y" using Cons.prems False by auto
    ultimately show ?thesis by auto
  qed
qed

lemma sorted_lower_bound_insert:
  assumes "sorted xs"
  shows "sorted (take (lower_bound xs v) xs @ (v :: mo) # drop (lower_bound xs v) xs)"
proof -
  have "sorted (takeWhile (\<lambda>x. x < v) xs)" "sorted (dropWhile (\<lambda>x. x < v) xs)"
    using assms by (simp_all add: sorted_takeWhile sorted_dropWhile)
  moreover have "\<forall>x \<in> set (takeWhile (\<lambda>x. x < v) xs). x \<le> v"
    using set_takeWhileD [of _ "\<lambda>x. x < v" xs] by force
  moreover have "\<forall>y \<in> set (dropWhile (\<lambda>x. x < v) xs). v \<le> y"
    using sorted_dropWhile_ge [OF assms] by blast
  ultimately show ?thesis
    unfolding lower_bound_take lower_bound_drop
    by (fastforce simp: sorted_append)
qed

lemma sorted_erase: "sorted xs \<Longrightarrow> sorted (take i xs @ drop (Suc i) (xs :: mo list))"
proof -
  assume s: "sorted xs"
  then have "sorted (take i xs @ drop i xs)" by simp
  then have "sorted (take i xs)" "sorted (drop i xs)"
    "\<forall>x \<in> set (take i xs). \<forall>y \<in> set (drop i xs). x \<le> y"
    unfolding sorted_append by auto
  moreover have "set (drop (Suc i) xs) \<subseteq> set (drop i xs)"
    by (simp add: set_drop_subset_set_drop)
  moreover have "sorted (drop (Suc i) xs)" using s by (rule sorted_wrt_drop)
  ultimately show ?thesis unfolding sorted_append by blast
qed

section \<open>objectAdded keeps the invariants\<close>

lemma objectAdded_unfold:
  "objectAdded ob r =
     (case addMetaObject (metaObject ob) (hasDynamicMetaObject ob) r of
        (canonical, r1) \<Rightarrow> increaseInclusiveCounts canonical (trackObject ob canonical r1))"
  by (simp add: objectAdded_def trackObject_def Let_def split: prod.splits)

lemma trackObject_fields:
  "m_childParentMap (trackObject ob m r) = m_childParentMap r \<and>
   m_metaObjectNameMap (trackObject ob m r) = m_metaObjectNameMap r \<and>
   m_metaObjectMap (trackObject ob m r) = (m_metaObjectMap r)(obj_address ob \<mapsto> m) \<and>
   emitted (trackObject ob m r) = emitted r \<and>
   m_metaObjectInfoMap (trackObject ob m r) =
     (m_metaObjectInfoMap r)(m \<mapsto>
        (infoOf r m)\<lparr>selfCount := selfCount (infoOf r m) + 1,
                     selfAliveCount := selfAliveCount (infoOf r m) + 1\<rparr>)"
  by (simp add: trackObject_def Let_def addAliveInstance_def infoOf_def)

lemma trackObject_pools:
  "m_aliveInstances (trackObject ob m r) =
     (if isDynamic (infoOf r m)
      then (m_aliveInstances r)(m \<mapsto>
             take (lower_bound (list_value (m_aliveInstances r) m) (Some (address (metaObject ob))))
                  (list_value (m_aliveInstances r) m) @
             Some (address (metaObject ob)) #
             drop (lower_bound (list_value (m_aliveInstances r) m) (Some (address (metaObject ob))))
                  (list_value (m_aliveInstances r) m))
      else m_aliveInstances r)"
  by (simp add: trackObject_def Let_def addAliveInstance_def infoOf_def)

lemma trackObject_infoOf:
  "infoOf (trackObject ob m r) n =
     (if n = m
      then (infoOf r m)\<lparr>selfCount := selfCount (infoOf r m) + 1,
                        selfAliveCount := selfAliveCount (infoOf r m) + 1\<rparr>
      else infoOf r n)"
  by (simp add: infoOf_def [of "trackObject ob m r"] trackObject_fields) (simp add: infoOf_def)

lemma parentChain_known:
  assumes K: "\<forall>d p. cpm d = Some (Some p) \<longrightarrow> cpm (Some p) \<noteq> None"
  shows "parentChain cpm m = Some ch \<Longrightarrow> cpm m \<noteq> None \<or> m = nullptr \<Longrightarrow>
         \<forall>x \<in> set ch. cpm x \<noteq> None"
proof (induction ch arbitrary: m)
  case Nil
  then show ?case by simp
next
  case (Cons x ch)
  from parentChain_Cons [OF Cons.prems(1)]
  have m: "m = x" and x: "x \<noteq> nullptr"
    and rest: "parentChain cpm (ptr_value cpm x) = Some ch"
    by auto
  obtain q where q: "cpm x = Some q" using Cons.prems(2) m x by auto
  have "cpm q \<noteq> None \<or> q = nullptr" using K q by (cases q) auto
  then have "\<forall>y \<in> set ch. cpm y \<noteq> None"
    using Cons.IH [of q] rest q by (simp add: ptr_value_def)
  then show ?case using q by simp
qed

lemma inv_graph_chain: "inv_graph r \<Longrightarrow> \<exists>ch. parentChain (m_childParentMap r) m = Some ch"
proof -
  assume "inv_graph r"
  then have "parentChain (m_childParentMap r) m \<noteq> None"
    unfolding inv_graph_def by blast
  then show ?thesis by blast
qed

lemma inv_graph_cong: "m_childParentMap r' = m_childParentMap r \<Longrightarrow> inv_graph r' = inv_graph r"
  by (simp add: inv_graph_def)

lemma inv_order_cong:
  "m_childParentMap r' = m_childParentMap r \<Longrightarrow>
   insertedNodes (emitted r') = insertedNodes (emitted r) \<Longrightarrow> inv_order r' = inv_order r"
  by (simp add: inv_order_def)

lemma increasedInfo_sel [simp]:
  "isStatic (increasedInfo i) = isStatic i" "isDynamic (increasedInfo i) = isDynamic i"
  "invalid (increasedInfo i) = False" "selfCount (increasedInfo i) = selfCount i"
  "selfAliveCount (increasedInfo i) = selfAliveCount i"
  "inclusiveCount (increasedInfo i) = inclusiveCount i + 1"
  "inclusiveAliveCount (increasedInfo i) = inclusiveAliveCount i + 1"
  "className (increasedInfo i) = className i"
  by (simp_all add: increasedInfo_def)

lemma decreasedInfo_sel [simp]:
  "isStatic (decreasedInfo i) = isStatic i" "isDynamic (decreasedInfo i) = isDynamic i"
  "invalid (decreasedInfo i) = (invalid i \<or> (inclusiveAliveCount i = 1 \<and> \<not> isStatic i))"
  "selfCount (decreasedInfo i) = selfCount i"
  "selfAliveCount (decreasedInfo i) = selfAliveCount i"
  "inclusiveCount (decreasedInfo i) = inclusiveCount i"
  "inclusiveAliveCount (decreasedInfo i) = inclusiveAliveCount i - 1"
  "className (decreasedInfo i) = className i"
  by (auto simp: decreasedInfo_def)

text \<open>
  The state after \<^verbatim>\<open>objectAdded\<close>: the walk visits the chain \<open>ch\<close> of the canonical node
  \<open>m\<close> in the registry \<open>r1\<close> that \<^verbatim>\<open>addMetaObject\<close> returns.
\<close>

lemma objectAdded_result:
  assumes I: "Inv r" and wf: "wf_QMetaObject (metaObject ob)"
    and add: "addMetaObject (metaObject ob) (hasDynamicMetaObject ob) r = (m, r1)"
  shows "\<exists>ch. parentChain (m_childParentMap r1) m = Some ch \<and> distinct ch \<and>
              (\<exists>ch'. ch = m # ch') \<and> (\<forall>x \<in> set ch. m_childParentMap r1 x \<noteq> None) \<and>
              objectAdded ob r = Some (fold increaseStep ch (trackObject ob m r1))"
proof -
  from addMetaObject_Inv [OF I wf add]
  have I1: "Inv r1" and m: "m \<noteq> nullptr" "m_childParentMap r1 m \<noteq> None" by simp_all
  then have G: "inv_graph r1" by (simp add: Inv_def)
  obtain ch where ch: "parentChain (m_childParentMap r1) m = Some ch"
    using inv_graph_chain [OF G] by blast
  have K: "\<forall>d p. m_childParentMap r1 d = Some (Some p) \<longrightarrow> m_childParentMap r1 (Some p) \<noteq> None"
    using G by (simp add: inv_graph_def)
  have "parentChain (m_childParentMap (trackObject ob m r1)) m = Some ch"
    using ch by (simp add: trackObject_fields)
  then have "increaseInclusiveCounts m (trackObject ob m r1)
      = Some (fold increaseStep ch (trackObject ob m r1))"
    by (rule increaseInclusiveCounts_chain)
  then have "objectAdded ob r = Some (fold increaseStep ch (trackObject ob m r1))"
    using add by (simp add: objectAdded_unfold)
  moreover have "\<exists>ch'. ch = m # ch'"
    using ch m(1) parentChain_head by (cases m) auto
  moreover have "\<forall>x \<in> set ch. m_childParentMap r1 x \<noteq> None"
    using parentChain_known [OF K ch] m(2) by blast
  ultimately show ?thesis
    using ch parentChain_distinct [OF ch] by blast
qed

lemma tracked_fields:
  fixes ob :: QObject
  assumes ch: "parentChain (m_childParentMap r1) m = Some ch"
  defines "r' \<equiv> fold increaseStep ch (trackObject ob m r1)"
  shows "m_childParentMap r' = m_childParentMap r1"
    and "m_metaObjectNameMap r' = m_metaObjectNameMap r1"
    and "m_metaObjectMap r' = (m_metaObjectMap r1)(obj_address ob \<mapsto> m)"
    and "emitted r' = emitted r1 @ map DataChanged ch"
    and "m_aliveInstances r' = m_aliveInstances (trackObject ob m r1)"
    and "infoOf r' n =
          (if n \<in> set ch then increasedInfo (infoOf (trackObject ob m r1) n)
           else infoOf (trackObject ob m r1) n)"
    and "m_metaObjectInfoMap r' n \<noteq> None \<longleftrightarrow>
           n \<in> set ch \<or> n = m \<or> m_metaObjectInfoMap r1 n \<noteq> None"
  unfolding r'_def
  using fold_increaseStep_frame [of ch "trackObject ob m r1"]
    fold_increaseStep_infoOf [OF parentChain_distinct [OF ch], of "trackObject ob m r1" n]
    fold_increaseStep_info [OF parentChain_distinct [OF ch], of "trackObject ob m r1" n]
  by (simp_all add: trackObject_fields)

lemma tracked_Inv:
  assumes I: "Inv r1" and m: "m \<noteq> nullptr" "m_childParentMap r1 m \<noteq> None"
    and ch: "parentChain (m_childParentMap r1) m = Some ch"
  shows "Inv (fold increaseStep ch (trackObject ob m r1))"
proof -
  let ?t = "trackObject ob m r1"
  let ?r' = "fold increaseStep ch ?t"
  note f = tracked_fields [OF ch, of ob]
  from I have G: "inv_graph r1" and R: "inv_refs r1" and S: "inv_static r1"
    and O: "inv_order r1" and P: "inv_pools r1"
    by (simp_all add: Inv_def)
  have K: "\<forall>d p. m_childParentMap r1 d = Some (Some p) \<longrightarrow> m_childParentMap r1 (Some p) \<noteq> None"
    using G by (simp add: inv_graph_def)
  have known: "\<forall>x \<in> set ch. m_childParentMap r1 x \<noteq> None"
    using parentChain_known [OF K ch] m(2) by blast
  have G': "inv_graph ?r'"
    using G inv_graph_cong [OF f(1)] by simp
  have O': "inv_order ?r'"
    using O inv_order_cong [of ?r' r1] f(1) f(4) by simp
  have R': "inv_refs ?r'"
    unfolding inv_refs_def
  proof (intro conjI allI impI)
    fix n c assume "m_metaObjectNameMap ?r' n = Some c"
    then show "c \<noteq> nullptr" "m_childParentMap ?r' c \<noteq> None"
      using R by (auto simp: inv_refs_def f(1,2))
  next
    fix n assume "m_metaObjectInfoMap ?r' n \<noteq> None"
    then have "n \<in> set ch \<or> n = m \<or> m_metaObjectInfoMap r1 n \<noteq> None"
      by (simp only: f(7))
    then show "m_childParentMap ?r' n \<noteq> None"
      using R known m(2) unfolding f(1) inv_refs_def by blast
  next
    fix o' c assume "m_metaObjectMap ?r' o' = Some c"
    then have "c = m \<or> m_metaObjectMap r1 o' = Some c"
      by (auto simp: f(3) split: if_splits)
    then show "c \<noteq> nullptr" "m_childParentMap ?r' c \<noteq> None"
      using R m unfolding f(1) inv_refs_def by blast+
  qed
  have flags: "isStatic (infoOf ?r' n) = isStatic (infoOf r1 n) \<and>
               isDynamic (infoOf ?r' n) = isDynamic (infoOf r1 n) \<and>
               (invalid (infoOf ?r' n) \<longrightarrow> invalid (infoOf r1 n))" for n
    by (simp add: f(6) trackObject_infoOf)
  have S': "inv_static ?r'"
    using S flags unfolding inv_static_def by blast
  have P': "inv_pools ?r'"
    unfolding inv_pools_def
  proof (intro allI conjI impI)
    fix n pool assume a: "m_aliveInstances ?r' n = Some pool"
    have old: "\<And>p. m_aliveInstances r1 n = Some p \<Longrightarrow> sorted p"
      using P by (simp add: inv_pools_def)
    have "sorted (list_value (m_aliveInstances r1) m)"
      using P by (auto simp: inv_pools_def list_value_def split: option.splits)
    then show "sorted pool"
      using a old sorted_lower_bound_insert
      by (auto simp: f(5) trackObject_pools split: if_splits)
  next
    fix n assume "m_aliveInstances ?r' n \<noteq> None"
    then have "isDynamic (infoOf r1 n)"
      using P by (auto simp: f(5) trackObject_pools inv_pools_def split: if_splits)
    then show "isDynamic (infoOf ?r' n)" using flags by simp
  next
    fix n show "\<not> (isStatic (infoOf ?r' n) \<and> isDynamic (infoOf ?r' n))"
      using P flags by (simp add: inv_pools_def)
  qed
  show ?thesis using G' R' S' O' P' by (simp add: Inv_def)
qed

lemma objectAdded_Inv:
  assumes I: "Inv r" and wf: "wf_QMetaObject (metaObject ob)"
  shows "\<exists>r'. objectAdded ob r = Some r' \<and> Inv r'"
proof -
  obtain m r1 where add: "addMetaObject (metaObject ob) (hasDynamicMetaObject ob) r = (m, r1)"
    by (cases "addMetaObject (metaObject ob) (hasDynamicMetaObject ob) r")
  from addMetaObject_Inv [OF I wf add]
  have I1: "Inv r1" and m: "m \<noteq> nullptr" "m_childParentMap r1 m \<noteq> None" by simp_all
  from objectAdded_result [OF I wf add] obtain ch where
    ch: "parentChain (m_childParentMap r1) m = Some ch"
    and res: "objectAdded ob r = Some (fold increaseStep ch (trackObject ob m r1))"
    by blast
  show ?thesis using res tracked_Inv [OF I1 m ch] by simp
qed

section \<open>objectRemoved keeps the invariants\<close>

lemma objectRemoved_unfold:
  assumes "m_metaObjectMap r ob = Some m" and "m \<noteq> nullptr"
    and "selfAliveCount (infoOf r m) \<noteq> 0"
  shows "objectRemoved ob r = decreaseInclusiveCounts m (untrackObject ob m r)"
  using assms
  by (cases m) (simp_all add: objectRemoved_def untrackObject_def ptr_value_def Let_def infoOf_def)

lemma untrackObject_fields:
  "m_childParentMap (untrackObject ob m r) = m_childParentMap r \<and>
   m_metaObjectNameMap (untrackObject ob m r) = m_metaObjectNameMap r \<and>
   m_metaObjectMap (untrackObject ob m r) = (m_metaObjectMap r)(ob := None) \<and>
   emitted (untrackObject ob m r) = emitted r \<and>
   m_metaObjectInfoMap (untrackObject ob m r) =
     (m_metaObjectInfoMap r)(m \<mapsto>
        (infoOf r m)\<lparr>selfAliveCount := selfAliveCount (infoOf r m) - 1\<rparr>)"
  by (simp add: untrackObject_def Let_def removeAliveInstance_def infoOf_def)

lemma untrackObject_pools:
  "m_aliveInstances (untrackObject ob m r) n =
     (if isDynamic (infoOf r m) \<and> n = m
      then Some (let alivePool = list_value (m_aliveInstances r) m;
                     it = lower_bound alivePool (ptr_value (m_dynamicMetaObjectMap r) ob)
                 in if it < length alivePool \<and>
                       alivePool ! it = ptr_value (m_dynamicMetaObjectMap r) ob
                    then take it alivePool @ drop (Suc it) alivePool else alivePool)
      else m_aliveInstances r n)"
  by (simp add: untrackObject_def Let_def removeAliveInstance_def infoOf_def)

lemma untrackObject_infoOf:
  "infoOf (untrackObject ob m r) n =
     (if n = m
      then (infoOf r m)\<lparr>selfAliveCount := selfAliveCount (infoOf r m) - 1\<rparr>
      else infoOf r n)"
  by (simp add: infoOf_def [of "untrackObject ob m r"] untrackObject_fields) (simp add: infoOf_def)

lemma untracked_fields:
  fixes ob :: obj
  assumes ch: "parentChain (m_childParentMap r) m = Some ch"
  defines "r' \<equiv> fold decreaseStep ch (untrackObject ob m r)"
  shows "m_childParentMap r' = m_childParentMap r"
    and "m_metaObjectNameMap r' = m_metaObjectNameMap r"
    and "m_metaObjectMap r' = (m_metaObjectMap r)(ob := None)"
    and "emitted r' = emitted r @ map DataChanged ch"
    and "m_aliveInstances r' = m_aliveInstances (untrackObject ob m r)"
    and "infoOf r' n =
          (if n \<in> set ch then decreasedInfo (infoOf (untrackObject ob m r) n)
           else infoOf (untrackObject ob m r) n)"
    and "m_metaObjectInfoMap r' n \<noteq> None \<longleftrightarrow>
           n \<in> set ch \<or> n = m \<or> m_metaObjectInfoMap r n \<noteq> None"
  unfolding r'_def
  using fold_decreaseStep_frame [of ch "untrackObject ob m r"]
    fold_decreaseStep_infoOf [OF parentChain_distinct [OF ch], of "untrackObject ob m r" n]
    fold_decreaseStep_info [OF parentChain_distinct [OF ch], of "untrackObject ob m r" n]
  by (simp_all add: untrackObject_fields)

lemma untracked_Inv:
  assumes I: "Inv r" and m: "m \<noteq> nullptr" "m_childParentMap r m \<noteq> None"
    and ch: "parentChain (m_childParentMap r) m = Some ch"
  shows "Inv (fold decreaseStep ch (untrackObject ob m r))"
proof -
  let ?t = "untrackObject ob m r"
  let ?r' = "fold decreaseStep ch ?t"
  note f = untracked_fields [OF ch, of ob]
  from I have G: "inv_graph r" and R: "inv_refs r" and S: "inv_static r"
    and O: "inv_order r" and P: "inv_pools r"
    by (simp_all add: Inv_def)
  have K: "\<forall>d p. m_childParentMap r d = Some (Some p) \<longrightarrow> m_childParentMap r (Some p) \<noteq> None"
    using G by (simp add: inv_graph_def)
  have known: "\<forall>x \<in> set ch. m_childParentMap r x \<noteq> None"
    using parentChain_known [OF K ch] m(2) by blast
  have G': "inv_graph ?r'"
    using G inv_graph_cong [OF f(1)] by simp
  have O': "inv_order ?r'"
    using O inv_order_cong [of ?r' r] f(1) f(4) by simp
  have R': "inv_refs ?r'"
    unfolding inv_refs_def
  proof (intro conjI allI impI)
    fix n c assume "m_metaObjectNameMap ?r' n = Some c"
    then show "c \<noteq> nullptr" "m_childParentMap ?r' c \<noteq> None"
      using R by (auto simp: inv_refs_def f(1,2))
  next
    fix n assume "m_metaObjectInfoMap ?r' n \<noteq> None"
    then have "n \<in> set ch \<or> n = m \<or> m_metaObjectInfoMap r n \<noteq> None"
      by (simp only: f(7))
    then show "m_childParentMap ?r' n \<noteq> None"
      using R known m(2) unfolding f(1) inv_refs_def by blast
  next
    fix o' c assume "m_metaObjectMap ?r' o' = Some c"
    then have "m_metaObjectMap r o' = Some c"
      by (auto simp: f(3) split: if_splits)
    then show "c \<noteq> nullptr" "m_childParentMap ?r' c \<noteq> None"
      using R unfolding f(1) inv_refs_def by blast+
  qed
  have flags: "isStatic (infoOf ?r' n) = isStatic (infoOf r n) \<and>
               isDynamic (infoOf ?r' n) = isDynamic (infoOf r n) \<and>
               (invalid (infoOf ?r' n) \<longrightarrow> invalid (infoOf r n) \<or> \<not> isStatic (infoOf r n))" for n
    by (simp add: f(6) untrackObject_infoOf)
  have S': "inv_static ?r'"
    using S flags unfolding inv_static_def by blast
  have P': "inv_pools ?r'"
    unfolding inv_pools_def
  proof (intro allI conjI impI)
    fix n pool assume a: "m_aliveInstances ?r' n = Some pool"
    have old: "\<And>p. m_aliveInstances r n = Some p \<Longrightarrow> sorted p"
      using P by (simp add: inv_pools_def)
    have "sorted (list_value (m_aliveInstances r) m)"
      using P by (auto simp: inv_pools_def list_value_def split: option.splits)
    then show "sorted pool"
      using a old sorted_erase
      by (auto simp: f(5) untrackObject_pools Let_def split: if_splits)
  next
    fix n assume "m_aliveInstances ?r' n \<noteq> None"
    then have "isDynamic (infoOf r n)"
      using P by (auto simp: f(5) untrackObject_pools inv_pools_def split: if_splits)
    then show "isDynamic (infoOf ?r' n)" using flags by simp
  next
    fix n show "\<not> (isStatic (infoOf ?r' n) \<and> isDynamic (infoOf ?r' n))"
      using P flags by (simp add: inv_pools_def)
  qed
  show ?thesis using G' R' S' O' P' by (simp add: Inv_def)
qed

lemma dropped_Inv:
  assumes I: "Inv r" and m: "m_childParentMap r m \<noteq> None"
  shows "Inv (r\<lparr>m_metaObjectMap := (m_metaObjectMap r)(ob := None),
               m_metaObjectInfoMap := (m_metaObjectInfoMap r)(m \<mapsto> infoOf r m)\<rparr>)"
proof -
  let ?r' = "r\<lparr>m_metaObjectMap := (m_metaObjectMap r)(ob := None),
               m_metaObjectInfoMap := (m_metaObjectInfoMap r)(m \<mapsto> infoOf r m)\<rparr>"
  have info: "infoOf ?r' = infoOf r"
    by (rule ext) (simp add: infoOf_materialise)
  from I have G: "inv_graph r" and R: "inv_refs r" and S: "inv_static r"
    and O: "inv_order r" and P: "inv_pools r"
    by (simp_all add: Inv_def)
  have "inv_graph ?r'" using G by (simp add: inv_graph_def)
  moreover have "inv_order ?r'" using O by (simp add: inv_order_def)
  moreover have "inv_static ?r'" using S by (simp add: inv_static_def info)
  moreover have "inv_pools ?r'" using P unfolding inv_pools_def info by simp
  moreover have "inv_refs ?r'"
    using R m unfolding inv_refs_def by (auto split: if_splits)
  ultimately show ?thesis by (simp add: Inv_def)
qed

lemma untracked_only_Inv:
  assumes I: "Inv r"
  shows "Inv (r\<lparr>m_metaObjectMap := (m_metaObjectMap r)(ob := None)\<rparr>)"
proof -
  let ?r' = "r\<lparr>m_metaObjectMap := (m_metaObjectMap r)(ob := None)\<rparr>"
  have info: "infoOf ?r' = infoOf r"
    by (rule ext) (simp add: infoOf_def)
  from I have G: "inv_graph r" and R: "inv_refs r" and S: "inv_static r"
    and O: "inv_order r" and P: "inv_pools r"
    by (simp_all add: Inv_def)
  have "inv_graph ?r'" using G by (simp add: inv_graph_def)
  moreover have "inv_order ?r'" using O by (simp add: inv_order_def)
  moreover have "inv_static ?r'" using S by (simp add: inv_static_def info)
  moreover have "inv_pools ?r'" using P unfolding inv_pools_def info by simp
  moreover have "inv_refs ?r'"
    using R unfolding inv_refs_def by (auto split: if_splits)
  ultimately show ?thesis by (simp add: Inv_def)
qed

lemma objectRemoved_Inv:
  assumes I: "Inv r"
  shows "\<exists>r'. objectRemoved ob r = Some r' \<and> Inv r'"
proof (cases "m_metaObjectMap r ob")
  case None
  then show ?thesis using I by (simp add: objectRemoved_untracked)
next
  case (Some m)
  have m: "m \<noteq> nullptr" "m_childParentMap r m \<noteq> None"
    using I Some by (auto simp: Inv_def inv_refs_def)
  then obtain a where a: "m = Some a" by (cases m) auto
  show ?thesis
  proof (cases "selfAliveCount (infoOf r m) = 0")
    case True
    then show ?thesis
      using objectRemoved_dropped [of r ob a] Some a dropped_Inv [OF I m(2), of ob] by simp
  next
    case False
    obtain ch where ch: "parentChain (m_childParentMap r) m = Some ch"
      using inv_graph_chain [of r m] I by (auto simp: Inv_def)
    have "parentChain (m_childParentMap (untrackObject ob m r)) m = Some ch"
      using ch by (simp add: untrackObject_fields)
    then have "objectRemoved ob r = Some (fold decreaseStep ch (untrackObject ob m r))"
      using objectRemoved_unfold [OF Some m(1) False] decreaseInclusiveCounts_chain by simp
    then show ?thesis using untracked_Inv [OF I m ch] by simp
  qed
qed

section \<open>Every run of well-formed events returns and keeps the invariants\<close>

lemma parentChain_empty: "parentChain (\<lambda>x. None) m \<noteq> None"
  by (cases m) (simp_all add: parentChain_unknown)

lemma Inv_empty: "Inv empty_registry"
  by (simp add: Inv_def inv_graph_def inv_refs_def inv_static_def inv_order_def inv_pools_def
      empty_registry_def infoOf_def default_MetaObjectInfo_def parentChain_empty)

lemma step_Inv:
  assumes I: "Inv r" and wf: "wf_event e"
  shows "\<exists>r'. step e r = Some r' \<and> Inv r'"
proof (cases e)
  case (AddMetaObject d mg)
  obtain m r' where add: "addMetaObject d mg r = (m, r')" by (cases "addMetaObject d mg r")
  then show ?thesis
    using addMetaObject_Inv [OF I _ add] wf AddMetaObject by simp
next
  case (ObjectAdded ob)
  then show ?thesis using objectAdded_Inv [OF I] wf by simp
next
  case (ObjectRemoved ob)
  then show ?thesis using objectRemoved_Inv [OF I] by simp
qed

lemma run_Inv:
  "Inv r \<Longrightarrow> list_all wf_event evs \<Longrightarrow> \<exists>r'. run evs r = Some r' \<and> Inv r'"
proof (induction evs arbitrary: r)
  case Nil
  then show ?case by simp
next
  case (Cons e evs)
  then obtain r1 where "step e r = Some r1" "Inv r1"
    using step_Inv [of r e] by auto
  then show ?case using Cons by auto
qed

lemma run_append:
  "run (es1 @ es2) r = (case run es1 r of None \<Rightarrow> None | Some r1 \<Rightarrow> run es2 r1)"
  by (induction es1 arbitrary: r) (auto split: option.splits)

section \<open>The alive counters count the alive objects\<close>

lemma card_insert_int: "finite S \<Longrightarrow> x \<notin> S \<Longrightarrow> int (card (insert x S)) = int (card S) + 1"
  by simp

lemma card_remove_int: "finite S \<Longrightarrow> x \<in> S \<Longrightarrow> int (card (S - {x})) = int (card S) - 1"
proof -
  assume "finite S" "x \<in> S"
  then have "card S = Suc (card (S - {x}))" by (rule card.remove)
  then show ?thesis by linarith
qed

lemma inv_countsD:
  assumes "inv_counts al r"
  shows "finite al" and "dom (m_metaObjectMap r) = al"
    and "selfAliveCount (infoOf r n) = int (card {ob \<in> al. m_metaObjectMap r ob = Some n})"
    and "inclusiveAliveCount (infoOf r n) = int (card {ob \<in> al. in_subtree r n ob})"
    and "invalid (infoOf r n) \<Longrightarrow> inclusiveAliveCount (infoOf r n) = 0"
proof -
  from assms have a: "finite al \<and> dom (m_metaObjectMap r) = al \<and>
      (\<forall>n. selfAliveCount (infoOf r n) = int (card {ob \<in> al. m_metaObjectMap r ob = Some n})) \<and>
      (\<forall>n. inclusiveAliveCount (infoOf r n) = int (card {ob \<in> al. in_subtree r n ob})) \<and>
      (\<forall>n. invalid (infoOf r n) \<longrightarrow> inclusiveAliveCount (infoOf r n) = 0)"
    unfolding inv_counts_def .
  show "finite al" by (rule a [THEN conjunct1])
  show "dom (m_metaObjectMap r) = al" by (rule a [THEN conjunct2, THEN conjunct1])
  show "selfAliveCount (infoOf r n) = int (card {ob \<in> al. m_metaObjectMap r ob = Some n})"
    by (rule a [THEN conjunct2, THEN conjunct2, THEN conjunct1, THEN spec])
  show "inclusiveAliveCount (infoOf r n) = int (card {ob \<in> al. in_subtree r n ob})"
    by (rule a [THEN conjunct2, THEN conjunct2, THEN conjunct2, THEN conjunct1, THEN spec])
  show "invalid (infoOf r n) \<Longrightarrow> inclusiveAliveCount (infoOf r n) = 0"
    by (rule a [THEN conjunct2, THEN conjunct2, THEN conjunct2, THEN conjunct2, THEN spec, THEN mp])
qed

lemma inv_countsI:
  assumes "finite al" and "dom (m_metaObjectMap r) = al"
    and "\<And>n. selfAliveCount (infoOf r n) = int (card {ob \<in> al. m_metaObjectMap r ob = Some n})"
    and "\<And>n. inclusiveAliveCount (infoOf r n) = int (card {ob \<in> al. in_subtree r n ob})"
    and "\<And>n. invalid (infoOf r n) \<Longrightarrow> inclusiveAliveCount (infoOf r n) = 0"
  shows "inv_counts al r"
  unfolding inv_counts_def using assms by (intro conjI allI impI)

lemma in_subtree_cong:
  "m_metaObjectMap r' ob = m_metaObjectMap r ob \<Longrightarrow>
   (\<And>m. m_metaObjectMap r ob = Some m \<Longrightarrow>
      parentChain (m_childParentMap r') m = parentChain (m_childParentMap r) m) \<Longrightarrow>
   in_subtree r' n ob = in_subtree r n ob"
  by (simp add: in_subtree_def split: option.splits)

lemma extends_chain:
  assumes I: "Inv r" and e: "extends r r'" and m: "m_childParentMap r m \<noteq> None"
  shows "parentChain (m_childParentMap r') m = parentChain (m_childParentMap r) m"
proof -
  have K: "\<forall>d p. m_childParentMap r d = Some (Some p) \<longrightarrow> m_childParentMap r (Some p) \<noteq> None"
    using I by (simp add: Inv_def inv_graph_def)
  have same: "\<forall>x. m_childParentMap r x \<noteq> None \<longrightarrow> m_childParentMap r' x = m_childParentMap r x"
    using e by (simp add: extends_def)
  obtain ch where ch: "parentChain (m_childParentMap r) m = Some ch"
    using inv_graph_chain [of r m] I by (auto simp: Inv_def)
  from parentChain_extends [OF K same ch] m show ?thesis using ch by simp
qed

lemma extends_counts:
  assumes I: "Inv r" and e: "extends r r'" and c: "inv_counts al r"
  shows "inv_counts al r'"
proof -
  have map: "m_metaObjectMap r' = m_metaObjectMap r"
    using e by (simp add: extends_def)
  have cnt: "selfAliveCount (infoOf r' n) = selfAliveCount (infoOf r n)"
    "inclusiveAliveCount (infoOf r' n) = inclusiveAliveCount (infoOf r n)"
    "invalid (infoOf r' n) = invalid (infoOf r n)" for n
    using e by (simp_all add: extends_def)
  have sub: "in_subtree r' n ob = in_subtree r n ob" for n ob
  proof (rule in_subtree_cong)
    show "m_metaObjectMap r' ob = m_metaObjectMap r ob" by (simp add: map)
  next
    fix m assume "m_metaObjectMap r ob = Some m"
    then have "m_childParentMap r m \<noteq> None"
      using I by (auto simp: Inv_def inv_refs_def)
    then show "parentChain (m_childParentMap r') m = parentChain (m_childParentMap r) m"
      using extends_chain [OF I e] by simp
  qed
  show ?thesis
    using inv_countsD [OF c] by (intro inv_countsI) (simp_all only: map cnt sub)
qed

lemma tracked_counts:
  fixes ob :: QObject
  assumes I1: "Inv r1" and c: "inv_counts al r1"
    and m: "m \<noteq> nullptr" "m_childParentMap r1 m \<noteq> None"
    and ch: "parentChain (m_childParentMap r1) m = Some ch"
    and new: "obj_address ob \<notin> al"
  shows "inv_counts (insert (obj_address ob) al) (fold increaseStep ch (trackObject ob m r1))"
proof -
  let ?o = "obj_address ob"
  let ?r' = "fold increaseStep ch (trackObject ob m r1)"
  note f = tracked_fields [OF ch, of ob]
  note fin = inv_countsD(1) [OF c] and dom = inv_countsD(2) [OF c]
    and self = inv_countsD(3) [OF c] and incl = inv_countsD(4) [OF c]
    and inval = inv_countsD(5) [OF c]
  have old: "in_subtree ?r' n x = in_subtree r1 n x" if "x \<in> al" for n x
    using that new by (intro in_subtree_cong) (auto simp: f(1,3))
  have newo: "in_subtree ?r' n ?o = (n \<in> set ch)" for n
    by (simp add: in_subtree_def f(1,3) ch)
  have selfset: "{x \<in> insert ?o al. m_metaObjectMap ?r' x = Some n} =
      (if n = m then insert ?o {x \<in> al. m_metaObjectMap r1 x = Some n}
       else {x \<in> al. m_metaObjectMap r1 x = Some n})" for n
    using new by (auto simp: f(3))
  have inclset: "{x \<in> insert ?o al. in_subtree ?r' n x} =
      (if n \<in> set ch then insert ?o {x \<in> al. in_subtree r1 n x}
       else {x \<in> al. in_subtree r1 n x})" for n
    using new old newo by auto
  have si: "selfAliveCount (infoOf ?r' n) = selfAliveCount (infoOf r1 n) + (if n = m then 1 else 0)"
    "inclusiveAliveCount (infoOf ?r' n) =
       inclusiveAliveCount (infoOf r1 n) + (if n \<in> set ch then 1 else 0)"
    "invalid (infoOf ?r' n) \<Longrightarrow> n \<notin> set ch \<and> invalid (infoOf r1 n)" for n
    by (auto simp: f(6) trackObject_infoOf split: if_splits)
  have notin: "?o \<notin> {x \<in> al. m_metaObjectMap r1 x = Some n}"
    "?o \<notin> {x \<in> al. in_subtree r1 n x}" for n
    using new by simp_all
  have fins: "finite {x \<in> al. m_metaObjectMap r1 x = Some n}"
    "finite {x \<in> al. in_subtree r1 n x}" for n
    using fin by simp_all
  show ?thesis
  proof (rule inv_countsI)
    show "finite (insert ?o al)" using fin by simp
    show "dom (m_metaObjectMap ?r') = insert ?o al" using dom by (simp add: f(3))
  next
    fix n
    show "selfAliveCount (infoOf ?r' n) =
      int (card {x \<in> insert ?o al. m_metaObjectMap ?r' x = Some n})"
      unfolding selfset si(1) self [of n]
      using card_insert_int [OF fins(1) notin(1), of n] by (cases "n = m") simp_all
  next
    fix n
    show "inclusiveAliveCount (infoOf ?r' n) =
      int (card {x \<in> insert ?o al. in_subtree ?r' n x})"
      unfolding inclset si(2) incl [of n]
      using card_insert_int [OF fins(2) notin(2), of n] by (cases "n \<in> set ch") simp_all
  next
    fix n assume "invalid (infoOf ?r' n)"
    then have "n \<notin> set ch" "invalid (infoOf r1 n)" using si(3) by blast+
    then show "inclusiveAliveCount (infoOf ?r' n) = 0"
      using inval [of n] si(2) [of n] by simp
  qed
qed

lemma untracked_counts:
  fixes ob :: obj
  assumes I: "Inv r" and c: "inv_counts al r"
    and tracked: "m_metaObjectMap r ob = Some m"
    and ch: "parentChain (m_childParentMap r) m = Some ch"
  shows "inv_counts (al - {ob}) (fold decreaseStep ch (untrackObject ob m r))"
proof -
  let ?r' = "fold decreaseStep ch (untrackObject ob m r)"
  note f = untracked_fields [OF ch, of ob]
  note fin = inv_countsD(1) [OF c] and dom = inv_countsD(2) [OF c]
    and self = inv_countsD(3) [OF c] and incl = inv_countsD(4) [OF c]
    and inval = inv_countsD(5) [OF c]
  have al: "ob \<in> al" using dom tracked by auto
  have old: "in_subtree ?r' n x = in_subtree r n x" if "x \<noteq> ob" for n x
    using that by (intro in_subtree_cong) (auto simp: f(1,3))
  have this_ob: "in_subtree r n ob = (n \<in> set ch)" for n
    by (simp add: in_subtree_def tracked ch)
  have selfset: "{x \<in> al - {ob}. m_metaObjectMap ?r' x = Some n} =
      {x \<in> al. m_metaObjectMap r x = Some n} - {ob}" for n
    by (auto simp: f(3))
  have inclset: "{x \<in> al - {ob}. in_subtree ?r' n x} = {x \<in> al. in_subtree r n x} - {ob}" for n
    using old by auto
  have mem: "ob \<in> {x \<in> al. m_metaObjectMap r x = Some n} \<longleftrightarrow> n = m"
    "ob \<in> {x \<in> al. in_subtree r n x} \<longleftrightarrow> n \<in> set ch" for n
    using al tracked this_ob by auto
  have fins: "finite {x \<in> al. m_metaObjectMap r x = Some n}"
    "finite {x \<in> al. in_subtree r n x}" for n
    using fin by simp_all
  have cards: "int (card ({x \<in> al. m_metaObjectMap r x = Some n} - {ob})) =
      int (card {x \<in> al. m_metaObjectMap r x = Some n}) - (if n = m then 1 else 0)"
    "int (card ({x \<in> al. in_subtree r n x} - {ob})) =
      int (card {x \<in> al. in_subtree r n x}) - (if n \<in> set ch then 1 else 0)" for n
    using card_remove_int [OF fins(1), of ob n] card_remove_int [OF fins(2), of ob n] mem [of n]
    by (auto simp: Diff_insert0)
  have pos: "1 \<le> inclusiveAliveCount (infoOf r n)" if "n \<in> set ch" for n
  proof -
    have "ob \<in> {x \<in> al. in_subtree r n x}" using that mem by simp
    then have "card {x \<in> al. in_subtree r n x} \<noteq> 0" using fins(2) [of n] by auto
    then show ?thesis unfolding incl [of n] by simp
  qed
  have si: "selfAliveCount (infoOf ?r' n) = selfAliveCount (infoOf r n) - (if n = m then 1 else 0)"
    "inclusiveAliveCount (infoOf ?r' n) =
       inclusiveAliveCount (infoOf r n) - (if n \<in> set ch then 1 else 0)"
    "invalid (infoOf ?r' n) \<Longrightarrow>
       (n \<in> set ch \<and> (invalid (infoOf r n) \<or> inclusiveAliveCount (infoOf r n) = 1)) \<or>
       (n \<notin> set ch \<and> invalid (infoOf r n))" for n
    by (auto simp: f(6) untrackObject_infoOf split: if_splits)
  show ?thesis
  proof (rule inv_countsI)
    show "finite (al - {ob})" using fin by simp
    show "dom (m_metaObjectMap ?r') = al - {ob}" using dom by (auto simp: f(3))
  next
    fix n
    show "selfAliveCount (infoOf ?r' n) =
      int (card {x \<in> al - {ob}. m_metaObjectMap ?r' x = Some n})"
      unfolding selfset si(1) self [of n] cards(1) ..
  next
    fix n
    show "inclusiveAliveCount (infoOf ?r' n) = int (card {x \<in> al - {ob}. in_subtree ?r' n x})"
      unfolding inclset si(2) incl [of n] cards(2) ..
  next
    fix n assume v: "invalid (infoOf ?r' n)"
    show "inclusiveAliveCount (infoOf ?r' n) = 0"
    proof (cases "n \<in> set ch")
      case True
      then have "\<not> invalid (infoOf r n)" using inval [of n] pos [of n] by auto
      then have "inclusiveAliveCount (infoOf r n) = 1" using si(3) [OF v] True by blast
      then show ?thesis using True si(2) [of n] by simp
    next
      case False
      then have "invalid (infoOf r n)" using si(3) [OF v] by blast
      then show ?thesis using inval [of n] si(2) [of n] False by simp
    qed
  qed
qed

lemma objectRemoved_alive:
  assumes I: "Inv r" and c: "inv_counts al r" and al: "ob \<in> al"
  shows "\<exists>m ch. m_metaObjectMap r ob = Some m \<and> m \<noteq> nullptr \<and>
               parentChain (m_childParentMap r) m = Some ch \<and>
               objectRemoved ob r = Some (fold decreaseStep ch (untrackObject ob m r))"
proof -
  obtain m where tracked: "m_metaObjectMap r ob = Some m"
    using inv_countsD(2) [OF c] al by auto
  have m: "m \<noteq> nullptr" "m_childParentMap r m \<noteq> None"
    using I tracked by (auto simp: Inv_def inv_refs_def)
  have "ob \<in> {x \<in> al. m_metaObjectMap r x = Some m}" using al tracked by simp
  moreover have "finite {x \<in> al. m_metaObjectMap r x = Some m}"
    using inv_countsD(1) [OF c] by simp
  ultimately have "card {x \<in> al. m_metaObjectMap r x = Some m} \<noteq> 0" by auto
  then have nz: "selfAliveCount (infoOf r m) \<noteq> 0"
    unfolding inv_countsD(3) [OF c, of m] by simp
  obtain ch where ch: "parentChain (m_childParentMap r) m = Some ch"
    using inv_graph_chain [of r m] I by (auto simp: Inv_def)
  have "parentChain (m_childParentMap (untrackObject ob m r)) m = Some ch"
    using ch by (simp add: untrackObject_fields)
  then have "objectRemoved ob r = Some (fold decreaseStep ch (untrackObject ob m r))"
    using objectRemoved_unfold [OF tracked m(1) nz] decreaseInclusiveCounts_chain by simp
  then show ?thesis using tracked m(1) ch by blast
qed

lemma step_counts:
  assumes I: "Inv r" and c: "inv_counts al r" and wf: "wf_event e"
    and order: "case e of ObjectAdded ob \<Rightarrow> obj_address ob \<notin> al | _ \<Rightarrow> True"
  shows "\<exists>r'. step e r = Some r' \<and> Inv r' \<and> inv_counts (alive_after e al) r'"
proof (cases e)
  case (AddMetaObject d mg)
  obtain m r' where add: "addMetaObject d mg r = (m, r')" by (cases "addMetaObject d mg r")
  from addMetaObject_Inv [OF I _ add] wf AddMetaObject
  have "Inv r'" "extends r r'" by simp_all
  then show ?thesis
    using extends_counts [OF I _ c] add AddMetaObject by simp
next
  case (ObjectAdded ob)
  obtain m r1 where add: "addMetaObject (metaObject ob) (hasDynamicMetaObject ob) r = (m, r1)"
    by (cases "addMetaObject (metaObject ob) (hasDynamicMetaObject ob) r")
  have wf': "wf_QMetaObject (metaObject ob)" using wf ObjectAdded by simp
  from addMetaObject_Inv [OF I wf' add]
  have I1: "Inv r1" and e: "extends r r1"
    and m: "m \<noteq> nullptr" "m_childParentMap r1 m \<noteq> None" by simp_all
  have c1: "inv_counts al r1" using extends_counts [OF I e c] .
  from objectAdded_result [OF I wf' add] obtain ch where
    ch: "parentChain (m_childParentMap r1) m = Some ch"
    and res: "objectAdded ob r = Some (fold increaseStep ch (trackObject ob m r1))"
    by blast
  have new: "obj_address ob \<notin> al" using order ObjectAdded by simp
  show ?thesis
    using res tracked_Inv [OF I1 m ch, of ob] tracked_counts [OF I1 c1 m ch new] ObjectAdded
    by simp
next
  case (ObjectRemoved ob)
  show ?thesis
  proof (cases "ob \<in> al")
    case True
    from objectRemoved_alive [OF I c True] obtain m ch where
      t: "m_metaObjectMap r ob = Some m" "m \<noteq> nullptr"
      and ch: "parentChain (m_childParentMap r) m = Some ch"
      and res: "objectRemoved ob r = Some (fold decreaseStep ch (untrackObject ob m r))"
      by blast
    have known: "m_childParentMap r m \<noteq> None"
      using I t(1) by (auto simp: Inv_def inv_refs_def)
    show ?thesis
      using res untracked_Inv [OF I t(2) known ch, of ob] untracked_counts [OF I c t(1) ch]
        ObjectRemoved by simp
  next
    case False
    then have "m_metaObjectMap r ob = None"
      using inv_countsD(2) [OF c] by auto
    then have "objectRemoved ob r = Some r" by (rule objectRemoved_untracked)
    moreover have "al - {ob} = al" using False by simp
    ultimately show ?thesis using I c ObjectRemoved by simp
  qed
qed

lemma inv_counts_empty: "inv_counts {} empty_registry"
  by (rule inv_countsI) (simp_all add: empty_registry_def infoOf_def default_MetaObjectInfo_def)

lemma valid_events_wf: "valid_events al evs \<Longrightarrow> list_all wf_event evs"
  by (induction evs arbitrary: al) auto

lemma run_counts:
  "Inv r \<Longrightarrow> inv_counts al r \<Longrightarrow> valid_events al evs \<Longrightarrow>
   \<exists>r'. run evs r = Some r' \<and> Inv r' \<and> inv_counts (alive evs al) r'"
proof (induction evs arbitrary: r al)
  case Nil
  then show ?case by simp
next
  case (Cons e evs)
  from Cons.prems(3) have wf: "wf_event e"
    and order: "case e of ObjectAdded ob \<Rightarrow> obj_address ob \<notin> al | _ \<Rightarrow> True"
    and rest: "valid_events (alive_after e al) evs"
    by simp_all
  from step_counts [OF Cons.prems(1,2) wf order] obtain r1 where
    "step e r = Some r1" "Inv r1" "inv_counts (alive_after e al) r1" by blast
  then show ?case using Cons.IH [OF _ _ rest] by simp
qed

lemma valid_events_append:
  "valid_events al (es1 @ es2) \<longleftrightarrow> valid_events al es1 \<and> valid_events (alive es1 al) es2"
  by (induction es1 arbitrary: al) auto

section \<open>Construction and the growth of the signal list\<close>

lemma run_fold_addMetaObject:
  "run (map (\<lambda>mt. AddMetaObject mt mg) mts @ evs) r =
   run evs (fold (\<lambda>mt r. snd (addMetaObject mt mg r)) mts r)"
  by (induction mts arbitrary: r) simp_all

lemma run_new_registry:
  "run (map (\<lambda>mt. AddMetaObject mt mg) (metaTypes @ [qt]) @ evs) empty_registry =
   run evs (new_registry metaTypes qt mg)"
  using run_fold_addMetaObject [of mg "metaTypes @ [qt]" evs empty_registry]
  by (simp add: new_registry_def scanMetaTypes_def)




section \<open>The two outcomes of addMetaObject on a descriptor that is not known\<close>

lemma registerParent_Inv:
  assumes I: "Inv r" and wf: "wf_QMetaObject d"
    and par: "registerParent (superClass d) mg r = (pm, r1)"
    and fresh: "\<not> isKnownMetaObject r (Some (address d))"
  shows "Inv r1" and "extends r r1" and "\<not> isKnownMetaObject r1 (Some (address d))"
    and "pm = nullptr \<or> m_childParentMap r1 pm \<noteq> None"
    and "superClass d = None \<Longrightarrow> pm = nullptr \<and> r1 = r"
    and "superClass d \<noteq> None \<Longrightarrow> pm \<noteq> nullptr"
proof -
  have all: "Inv r1 \<and> extends r r1 \<and> \<not> isKnownMetaObject r1 (Some (address d)) \<and>
      (pm = nullptr \<or> m_childParentMap r1 pm \<noteq> None) \<and>
      (superClass d = None \<longrightarrow> pm = nullptr \<and> r1 = r) \<and>
      (superClass d \<noteq> None \<longrightarrow> pm \<noteq> nullptr)"
  proof (cases "superClass d")
    case None
    then show ?thesis using par I fresh by (simp add: registerParent_def extends_refl)
  next
    case (Some p)
    have wfp: "wf_QMetaObject p" and notin: "address d \<notin> address ` set (superClasses p)"
      using wf_QMetaObject_super [OF wf Some] by auto
    show ?thesis
    proof (cases "isKnownMetaObject r (Some (address p))")
      case True
      then show ?thesis using par Some I fresh
        by (auto simp: registerParent_def extends_refl isKnownMetaObject_def)
    next
      case False
      then have add: "addMetaObject p mg r = (pm, r1)"
        using par Some by (simp add: registerParent_def)
      from addMetaObject_Inv [OF I wfp add]
      have a: "Inv r1" "extends r r1" "pm \<noteq> nullptr" "m_childParentMap r1 pm \<noteq> None"
        and new: "\<forall>x. m_childParentMap r1 x \<noteq> None \<longrightarrow>
             m_childParentMap r x \<noteq> None \<or> x \<in> Some ` address ` set (superClasses p)"
        by simp_all
      have "\<not> isKnownMetaObject r1 (Some (address d))"
      proof
        assume "isKnownMetaObject r1 (Some (address d))"
        then have "m_childParentMap r1 (Some (address d)) \<noteq> None"
          by (simp add: isKnownMetaObject_def)
        then have "m_childParentMap r (Some (address d)) \<noteq> None \<or>
            Some (address d) \<in> Some ` address ` set (superClasses p)"
          using new by blast
        then show False using fresh notin by (auto simp: isKnownMetaObject_def)
      qed
      then show ?thesis using a Some by simp
    qed
  qed
  show "Inv r1" and "extends r r1" and "\<not> isKnownMetaObject r1 (Some (address d))"
    and "pm = nullptr \<or> m_childParentMap r1 pm \<noteq> None"
    using all by blast+
  show "superClass d = None \<Longrightarrow> pm = nullptr \<and> r1 = r" using all by blast
  show "superClass d \<noteq> None \<Longrightarrow> pm \<noteq> nullptr" using all by blast
qed

text \<open>
  A descriptor that is not known is either inserted, with the parent that the first half
  of the call returned, or merged into the canonical node of its class name, and then the
  call ends in the state that the first half left.
\<close>

lemma addMetaObject_unknown_cases:
  assumes I: "Inv r" and wf: "wf_QMetaObject d"
    and fresh: "\<not> isKnownMetaObject r (Some (address d))"
    and par: "registerParent (superClass d) mg r = (pm, r1)"
    and res: "addMetaObject d mg r = (m, r')"
  shows "(m = Some (address d) \<and>
          (isReadOnlyData d \<or> \<not> mg \<or> m_metaObjectNameMap r1 (mo_className d) = None) \<and>
          m_childParentMap r' = (m_childParentMap r1)(Some (address d) \<mapsto> pm) \<and>
          emitted r' = emitted r1 @ [BeforeMetaObjectAdded (Some (address d)),
                                     AfterMetaObjectAdded (Some (address d))] \<and>
          (\<not> isReadOnlyData d \<and> mg \<longrightarrow>
             m_metaObjectNameMap r' (mo_className d) = Some (Some (address d)))) \<or>
         (\<not> isReadOnlyData d \<and> mg \<and> m_metaObjectNameMap r1 (mo_className d) = Some m \<and>
          r' = r1)"
proof -
  have res': "mergeOrInsert (address d) (mo_className d) (isReadOnlyData d) mg pm r1 = (m, r')"
    using res fresh par by (simp add: addMetaObject_unfold)
  show ?thesis
  proof (cases "\<not> isReadOnlyData d \<and> mg")
    case True
    show ?thesis
    proof (cases "m_metaObjectNameMap r1 (mo_className d)")
      case None
      then have "m = Some (address d)"
        "r' = insertNode (Some (address d)) (mo_className d) (isReadOnlyData d) mg pm
               (r1\<lparr>m_metaObjectNameMap :=
                     (m_metaObjectNameMap r1)(mo_className d \<mapsto> Some (address d))\<rparr>)"
        using res' True by (auto simp: mergeOrInsert_def)
      then show ?thesis using None by (simp add: insertNode_fields)
    next
      case (Some c)
      then have "m = c" "r' = r1" using res' True by (auto simp: mergeOrInsert_def)
      then show ?thesis using True Some by simp
    qed
  next
    case False
    then have "m = Some (address d)"
      "r' = insertNode (Some (address d)) (mo_className d) (isReadOnlyData d) mg pm r1"
      using res' by (auto simp: mergeOrInsert_def)
    then show ?thesis using False by (auto simp: insertNode_fields)
  qed
qed

lemma addMetaObject_merged:
  assumes I: "Inv r" and wf: "wf_QMetaObject d"
    and dyn: "\<not> isReadOnlyData d"
    and fresh: "\<not> isKnownMetaObject r (Some (address d))"
    and name: "m_metaObjectNameMap r (mo_className d) = Some c"
  shows "addMetaObject d True r = (c, snd (registerParent (superClass d) True r))"
    and "\<not> isKnownMetaObject (snd (addMetaObject d True r)) (Some (address d))"
    and "isKnownMetaObject r c" and "c \<noteq> nullptr"
    and "m_metaObjectInfoMap (snd (addMetaObject d True r)) (Some (address d)) = None"
proof -
  obtain pm r1 where par: "registerParent (superClass d) True r = (pm, r1)"
    by (cases "registerParent (superClass d) True r")
  note I1 = registerParent_Inv(1) [OF I wf par fresh]
    and e = registerParent_Inv(2) [OF I wf par fresh]
    and fresh1 = registerParent_Inv(3) [OF I wf par fresh]
  have "m_metaObjectNameMap r1 (mo_className d) = Some c"
    using e name by (simp add: extends_def)
  then have "mergeOrInsert (address d) (mo_className d) (isReadOnlyData d) True pm r1 = (c, r1)"
    using dyn by (simp add: mergeOrInsert_def)
  then have res: "addMetaObject d True r = (c, r1)"
    using fresh par by (simp add: addMetaObject_unfold)
  have c: "isKnownMetaObject r c" "c \<noteq> nullptr"
    using I name by (auto simp: Inv_def inv_refs_def isKnownMetaObject_def)
  have noinfo: "m_metaObjectInfoMap r1 (Some (address d)) = None"
    using I1 fresh1 by (auto simp: Inv_def inv_refs_def isKnownMetaObject_def)
  show "addMetaObject d True r = (c, snd (registerParent (superClass d) True r))"
    using res par by simp
  show "\<not> isKnownMetaObject (snd (addMetaObject d True r)) (Some (address d))"
    using res fresh1 by simp
  show "isKnownMetaObject r c" "c \<noteq> nullptr" by (rule c)+
  show "m_metaObjectInfoMap (snd (addMetaObject d True r)) (Some (address d)) = None"
    using res noinfo by simp
qed

lemma registerParent_known:
  "(case superClass d of None \<Rightarrow> True | Some p \<Rightarrow> isKnownMetaObject r (Some (address p))) \<Longrightarrow>
   snd (registerParent (superClass d) mg r) = r"
  by (simp add: registerParent_def split: option.splits)

text \<open>
  A descriptor of the superclass chain that the call makes known, lying outside read-only
  storage and registered with merging, is the canonical node of its class name afterwards.
\<close>

lemma addMetaObject_new_canonical:
  "Inv r \<Longrightarrow> wf_QMetaObject d \<Longrightarrow> addMetaObject d mg r = (m, r') \<Longrightarrow>
   p0 \<in> set (superClasses d) \<Longrightarrow> \<not> isKnownMetaObject r (Some (address p0)) \<Longrightarrow>
   isKnownMetaObject r' (Some (address p0)) \<Longrightarrow> \<not> isReadOnlyData p0 \<Longrightarrow> mg \<Longrightarrow>
   m_metaObjectNameMap r' (mo_className p0) = Some (Some (address p0))"
proof (induction d mg r arbitrary: m r' rule: addMetaObject.induct)
  case (1 a name ro super mg r)
  let ?d = "QMetaObject a name ro super"
  note I = "1.prems"(1) and wf = "1.prems"(2) and res = "1.prems"(3)
  show ?case
  proof (cases "isKnownMetaObject r (Some a)")
    case True
    then have "r' = r" using res by (simp add: addMetaObject_unfold [of ?d])
    then show ?thesis using "1.prems"(5,6) by simp
  next
    case False
    then have fresh: "\<not> isKnownMetaObject r (Some (address ?d))" by simp
    obtain pm r1 where par: "registerParent (superClass ?d) mg r = (pm, r1)"
      by (cases "registerParent (superClass ?d) mg r")
    note I1 = registerParent_Inv(1) [OF I wf par fresh]
      and fresh1 = registerParent_Inv(3) [OF I wf par fresh]
      and pm1 = registerParent_Inv(4) [OF I wf par fresh]
    have res1: "mergeOrInsert a name ro mg pm r1 = (m, r')"
      using res False par by (simp add: addMetaObject_unfold [of ?d])
    have fresh1': "m_childParentMap r1 (Some a) = None"
      using fresh1 by (simp add: isKnownMetaObject_def)
    from mergeOrInsert_Inv [OF I1 fresh1' pm1 res1]
    have e1: "extends r1 r'"
      and new': "\<And>x. m_childParentMap r' x \<noteq> None \<Longrightarrow> m_childParentMap r1 x \<noteq> None \<or> x = Some a"
      by simp_all
    show ?thesis
    proof (cases "p0 = ?d")
      case True
      from addMetaObject_unknown_cases [OF I wf fresh par res]
      consider (ins) "\<not> isReadOnlyData ?d \<and> mg \<longrightarrow>
             m_metaObjectNameMap r' (mo_className ?d) = Some (Some (address ?d))"
        | (mrg) "r' = r1"
        by blast
      then show ?thesis
      proof cases
        case ins
        then show ?thesis using True "1.prems"(7,8) by simp
      next
        case mrg
        then show ?thesis using True "1.prems"(6) fresh1 by simp
      qed
    next
      case False
      then obtain q where q: "super = Some q" and p0: "p0 \<in> set (superClasses q)"
        using "1.prems"(4) by (cases super) auto
      have wfq: "wf_QMetaObject q" and notin: "a \<notin> address ` set (superClasses q)"
        using wf_QMetaObject_super [OF wf, of q] q by auto
      have ne: "Some (address p0) \<noteq> Some a" using p0 notin by auto
      have k1: "isKnownMetaObject r1 (Some (address p0))"
        using new' [of "Some (address p0)"] "1.prems"(6) ne
        by (auto simp: isKnownMetaObject_def)
      have unknown_q: "\<not> isKnownMetaObject r (Some (address q))"
      proof
        assume "isKnownMetaObject r (Some (address q))"
        then have "r1 = r" using par q by (simp add: registerParent_def)
        then show False using k1 "1.prems"(5) by simp
      qed
      then have add: "addMetaObject q mg r = (pm, r1)"
        using par q by (simp add: registerParent_def)
      have "m_metaObjectNameMap r1 (mo_className p0) = Some (Some (address p0))"
        using "1.IH" [OF \<open>\<not> isKnownMetaObject r (Some a)\<close> q unknown_q I wfq add p0
            "1.prems"(5) k1 "1.prems"(7,8)] .
      then show ?thesis using e1 by (simp add: extends_def)
    qed
  qed
qed

text \<open>What \<^verbatim>\<open>objectAdded\<close> leaves, for the proofs about several calls.\<close>

lemma objectAdded_effect:
  assumes I: "Inv r" and wf: "wf_QMetaObject (metaObject ob)"
    and add: "addMetaObject (metaObject ob) (hasDynamicMetaObject ob) r = (m, r1)"
  shows "\<exists>r'. objectAdded ob r = Some r' \<and> Inv r' \<and>
              m_childParentMap r' = m_childParentMap r1 \<and>
              m_metaObjectNameMap r' = m_metaObjectNameMap r1 \<and>
              m_metaObjectMap r' = (m_metaObjectMap r)(obj_address ob \<mapsto> m) \<and>
              (\<forall>n. selfCount (infoOf r' n) = selfCount (infoOf r n) + (if n = m then 1 else 0))"
proof -
  from addMetaObject_Inv [OF I wf add]
  have I1: "Inv r1" and e: "extends r r1"
    and m: "m \<noteq> nullptr" "m_childParentMap r1 m \<noteq> None" by simp_all
  from objectAdded_result [OF I wf add] obtain ch where
    ch: "parentChain (m_childParentMap r1) m = Some ch"
    and res: "objectAdded ob r = Some (fold increaseStep ch (trackObject ob m r1))"
    by blast
  let ?r' = "fold increaseStep ch (trackObject ob m r1)"
  note f = tracked_fields [OF ch, of ob]
  have old: "selfCount (infoOf r1 n) = selfCount (infoOf r n)" for n
    using e by (simp add: extends_def)
  have map: "m_metaObjectMap r1 = m_metaObjectMap r"
    using e by (simp add: extends_def)
  have "selfCount (infoOf ?r' n) = selfCount (infoOf r n) + (if n = m then 1 else 0)" for n
    using old [of n] old [of m] by (auto simp: f(6) trackObject_infoOf)
  then show ?thesis
    using res tracked_Inv [OF I1 m ch, of ob] f(1,2,3) map by simp
qed

section \<open>Parent-first insertion\<close>

lemma example_wf:
  "wf_QMetaObject class_A" "wf_QMetaObject class_B" "wf_QMetaObject class_C"
  "wf_QMetaObject class_Item"
  by (simp_all add: wf_QMetaObject_def class_A_def class_B_def class_C_def class_Item_def)






section \<open>Static nodes stay valid\<close>

text \<open>
  C7: in every state reached from the empty registry, a node classified as static (its
  descriptor lies in read-only storage) is not invalid; the queries \<^verbatim>\<open>isStatic\<close> and
  \<^verbatim>\<open>isValid\<close> agree on it.
\<close>

theorem static_never_invalid:
  assumes "list_all wf_event evs" and "run evs empty_registry = Some r"
  shows "(isStatic (infoOf r n) \<longrightarrow> \<not> invalid (infoOf r n)) \<and>
         (registry_isStatic r n \<longrightarrow> isValid r n)"
proof -
  have "Inv r"
    using run_Inv [OF Inv_empty assms(1)] assms(2) by auto
  then have "inv_static r" by (simp add: Inv_def)
  then have "isStatic (infoOf r n) \<longrightarrow> \<not> invalid (infoOf r n)"
    by (simp add: inv_static_def)
  then show ?thesis
    by (auto simp: registry_isStatic_def isValid_def infoOf_def split: option.splits)
qed

theorem static_never_invalid_witness:
  "list_all wf_event [ObjectAdded instance_of_Item, ObjectRemoved 11] \<and>
   (\<exists>r. run [ObjectAdded instance_of_Item, ObjectRemoved 11] empty_registry = Some r \<and>
        registry_isStatic r (Some 1) \<and> isValid r (Some 1) \<and>
        inclusiveAliveCount (infoOf r (Some 1)) = 0 \<and> \<not> isValid r (Some 4))"
proof -
  let ?evs = "[ObjectAdded instance_of_Item, ObjectRemoved 11]"
  have wf: "list_all wf_event ?evs"
    by (simp add: example_wf instance_of_Item_def)
  have ev: "case run ?evs empty_registry of None \<Rightarrow> False
            | Some r \<Rightarrow> registry_isStatic r (Some 1) \<and>
                inclusiveAliveCount (infoOf r (Some 1)) = 0 \<and> \<not> isValid r (Some 4)"
    by code_simp
  then obtain r where r: "run ?evs empty_registry = Some r"
    and f: "registry_isStatic r (Some 1)" "inclusiveAliveCount (infoOf r (Some 1)) = 0"
      "\<not> isValid r (Some 4)"
    by (auto split: option.splits)
  from static_never_invalid [OF wf r, of "Some 1"] f have "isValid r (Some 1)" by simp
  then show ?thesis using wf r f by blast
qed

section \<open>Alive counters along valid event sequences\<close>

lemma valid_events_take: "valid_events al evs \<Longrightarrow> valid_events al (take k evs)"
  using valid_events_append [of al "take k evs" "drop k evs"] by simp

text \<open>
  C4: along every event sequence that respects the per-object order, after every prefix
  the registry tracks exactly the alive objects, the \<open>inclusiveAliveCount\<close> of every node
  (of a root in particular) is the number of alive objects in its subtree, its
  \<open>selfAliveCount\<close> the number of alive objects registered under it, and neither counter
  is negative.
\<close>

theorem alive_counts_match:
  assumes "valid_events {} evs"
  shows "\<exists>r. run (take k evs) empty_registry = Some r \<and>
             dom (m_metaObjectMap r) = alive (take k evs) {} \<and>
             (\<forall>n. inclusiveAliveCount (infoOf r n) =
                    int (card {ob \<in> alive (take k evs) {}. in_subtree r n ob}) \<and>
                  selfAliveCount (infoOf r n) =
                    int (card {ob \<in> alive (take k evs) {}. m_metaObjectMap r ob = Some n}) \<and>
                  0 \<le> selfAliveCount (infoOf r n) \<and> 0 \<le> inclusiveAliveCount (infoOf r n))"
proof -
  have "valid_events {} (take k evs)" using assms by (rule valid_events_take)
  from run_counts [OF Inv_empty inv_counts_empty this] obtain r where
    r: "run (take k evs) empty_registry = Some r" and c: "inv_counts (alive (take k evs) {}) r"
    by blast
  have "0 \<le> selfAliveCount (infoOf r n) \<and> 0 \<le> inclusiveAliveCount (infoOf r n)" for n
    unfolding inv_countsD(3,4) [OF c] by simp
  then show ?thesis
    using r inv_countsD(2,3,4) [OF c] by blast
qed



lemma add_then_remove_valid: "valid_events {} add_then_remove"
  by (simp add: add_then_remove_def example_wf instance_of_Item_def)

theorem alive_counts_match_witness:
  "valid_events {} add_then_remove \<and>
   (\<exists>r. run (take 1 add_then_remove) empty_registry = Some r \<and>
        inclusiveAliveCount (infoOf r (Some 1)) =
          int (card {ob \<in> alive (take 1 add_then_remove) {}. in_subtree r (Some 1) ob}) \<and>
        inclusiveAliveCount (infoOf r (Some 1)) = 1 \<and>
        alive (take 1 add_then_remove) {} = {11}) \<and>
   (\<exists>r. run (take 2 add_then_remove) empty_registry = Some r \<and>
        inclusiveAliveCount (infoOf r (Some 1)) =
          int (card {ob \<in> alive (take 2 add_then_remove) {}. in_subtree r (Some 1) ob}) \<and>
        alive (take 2 add_then_remove) {} = {})"
proof -
  have ev: "case run (take 1 add_then_remove) empty_registry of None \<Rightarrow> False
            | Some r \<Rightarrow> inclusiveAliveCount (infoOf r (Some 1)) = 1"
    by code_simp
  have al: "alive (take 1 add_then_remove) {} = {11}" "alive (take 2 add_then_remove) {} = {}"
    by (simp_all add: add_then_remove_def instance_of_Item_def)
  obtain r where r: "run (take 1 add_then_remove) empty_registry = Some r"
    and f: "inclusiveAliveCount (infoOf r (Some 1)) = 1"
    using ev by (cases "run (take 1 add_then_remove) empty_registry") simp_all
  from alive_counts_match [OF add_then_remove_valid, of 1] obtain r' where
    r': "run (take 1 add_then_remove) empty_registry = Some r'"
    and g: "\<forall>n. inclusiveAliveCount (infoOf r' n) =
              int (card {ob \<in> alive (take 1 add_then_remove) {}. in_subtree r' n ob})"
    by blast
  have "r' = r" using r r' by simp
  then have one: "inclusiveAliveCount (infoOf r (Some 1)) =
      int (card {ob \<in> alive (take 1 add_then_remove) {}. in_subtree r (Some 1) ob})"
    using g by blast
  from alive_counts_match [OF add_then_remove_valid, of 2] obtain r2 where
    "run (take 2 add_then_remove) empty_registry = Some r2"
    "\<forall>n. inclusiveAliveCount (infoOf r2 n) =
              int (card {ob \<in> alive (take 2 add_then_remove) {}. in_subtree r2 n ob})"
    by blast
  then show ?thesis
    using add_then_remove_valid r f al one by blast
qed

section \<open>The validity flag along valid event sequences\<close>

text \<open>
  What one event does to the flag and to the inclusive alive counter of every node; \<open>V\<close> is
  the set of nodes that the walk of the event visits.
\<close>

lemma step_flag_effect:
  assumes I: "Inv r" and c: "inv_counts al r" and wf: "wf_event e"
    and order: "case e of ObjectAdded ob \<Rightarrow> obj_address ob \<notin> al | _ \<Rightarrow> True"
  shows "\<exists>r' V. step e r = Some r' \<and>
           (\<forall>n. case e of
                  AddMetaObject d mg \<Rightarrow>
                    invalid (infoOf r' n) = invalid (infoOf r n) \<and>
                    inclusiveAliveCount (infoOf r' n) = inclusiveAliveCount (infoOf r n)
                | ObjectAdded ob \<Rightarrow>
                    invalid (infoOf r' n) = (invalid (infoOf r n) \<and> n \<notin> V) \<and>
                    inclusiveAliveCount (infoOf r' n) =
                      inclusiveAliveCount (infoOf r n) + (if n \<in> V then 1 else 0)
                | ObjectRemoved ob \<Rightarrow>
                    invalid (infoOf r' n) =
                      (invalid (infoOf r n) \<or>
                       (n \<in> V \<and> inclusiveAliveCount (infoOf r n) = 1 \<and> \<not> isStatic (infoOf r n))) \<and>
                    inclusiveAliveCount (infoOf r' n) =
                      inclusiveAliveCount (infoOf r n) - (if n \<in> V then 1 else 0))"
proof (cases e)
  case (AddMetaObject d mg)
  obtain m r' where add: "addMetaObject d mg r = (m, r')" by (cases "addMetaObject d mg r")
  from addMetaObject_Inv [OF I _ add] wf AddMetaObject
  have "extends r r'" by simp
  then have "invalid (infoOf r' n) = invalid (infoOf r n) \<and>
      inclusiveAliveCount (infoOf r' n) = inclusiveAliveCount (infoOf r n)" for n
    by (simp add: extends_def)
  then show ?thesis using add AddMetaObject by simp
next
  case (ObjectAdded ob)
  obtain m r1 where add: "addMetaObject (metaObject ob) (hasDynamicMetaObject ob) r = (m, r1)"
    by (cases "addMetaObject (metaObject ob) (hasDynamicMetaObject ob) r")
  have wf': "wf_QMetaObject (metaObject ob)" using wf ObjectAdded by simp
  from addMetaObject_Inv [OF I wf' add] have e: "extends r r1" by simp
  from objectAdded_result [OF I wf' add] obtain ch where
    ch: "parentChain (m_childParentMap r1) m = Some ch"
    and res: "objectAdded ob r = Some (fold increaseStep ch (trackObject ob m r1))"
    by blast
  let ?r' = "fold increaseStep ch (trackObject ob m r1)"
  note f = tracked_fields(6) [OF ch, of ob]
  have old: "invalid (infoOf r1 n) = invalid (infoOf r n)"
    "inclusiveAliveCount (infoOf r1 n) = inclusiveAliveCount (infoOf r n)" for n
    using e by (simp_all add: extends_def)
  have "invalid (infoOf ?r' n) = (invalid (infoOf r n) \<and> n \<notin> set ch) \<and>
      inclusiveAliveCount (infoOf ?r' n) =
        inclusiveAliveCount (infoOf r n) + (if n \<in> set ch then 1 else 0)" for n
    using old [of n] old [of m] by (auto simp: f trackObject_infoOf)
  then show ?thesis using res ObjectAdded by auto
next
  case (ObjectRemoved ob)
  show ?thesis
  proof (cases "ob \<in> al")
    case True
    from objectRemoved_alive [OF I c True] obtain m ch where
      ch: "parentChain (m_childParentMap r) m = Some ch"
      and res: "objectRemoved ob r = Some (fold decreaseStep ch (untrackObject ob m r))"
      by blast
    let ?r' = "fold decreaseStep ch (untrackObject ob m r)"
    note f = untracked_fields(6) [OF ch, of ob]
    have "invalid (infoOf ?r' n) =
        (invalid (infoOf r n) \<or>
         (n \<in> set ch \<and> inclusiveAliveCount (infoOf r n) = 1 \<and> \<not> isStatic (infoOf r n))) \<and>
      inclusiveAliveCount (infoOf ?r' n) =
        inclusiveAliveCount (infoOf r n) - (if n \<in> set ch then 1 else 0)" for n
      by (simp add: f untrackObject_infoOf)
    then show ?thesis using res ObjectRemoved by auto
  next
    case False
    then have "m_metaObjectMap r ob = None"
      using inv_countsD(2) [OF c] by auto
    then have "objectRemoved ob r = Some r" by (rule objectRemoved_untracked)
    then have "step e r = Some r \<and>
        (\<forall>n. invalid (infoOf r n) =
           (invalid (infoOf r n) \<or>
            (n \<in> {} \<and> inclusiveAliveCount (infoOf r n) = 1 \<and> \<not> isStatic (infoOf r n))) \<and>
           inclusiveAliveCount (infoOf r n) =
             inclusiveAliveCount (infoOf r n) - (if n \<in> {} then 1 else 0))"
      using ObjectRemoved by simp
    then show ?thesis using ObjectRemoved by (intro exI [of _ r] exI [of _ "{}"]) simp
  qed
qed

text \<open>
  C5: let \<open>r\<close> be the state after a valid event sequence and \<open>e\<close> a next event that keeps
  the sequence valid.  For a dynamic node, the flag \<open>invalid\<close> goes from false to true in
  the step \<open>e\<close> exactly when \<open>e\<close> is an \<^verbatim>\<open>objectRemoved\<close> in which the node's
  \<open>inclusiveAliveCount\<close> goes from nonzero to zero, and from true to false exactly when
  \<open>e\<close> is an \<^verbatim>\<open>objectAdded\<close> that increments the node's \<open>inclusiveAliveCount\<close> while the flag
  is set; so the flag changes in no other step.
\<close>

theorem invalid_flag_changes:
  assumes v: "valid_events {} (evs @ [e])" and r: "run evs empty_registry = Some r"
    and dyn: "isDynamic (infoOf r n)"
  shows "\<exists>r'. step e r = Some r' \<and>
           ((\<not> invalid (infoOf r n) \<and> invalid (infoOf r' n)) \<longleftrightarrow>
              ((\<exists>ob. e = ObjectRemoved ob) \<and> inclusiveAliveCount (infoOf r n) \<noteq> 0 \<and>
               inclusiveAliveCount (infoOf r' n) = 0)) \<and>
           ((invalid (infoOf r n) \<and> \<not> invalid (infoOf r' n)) \<longleftrightarrow>
              ((\<exists>ob. e = ObjectAdded ob) \<and> invalid (infoOf r n) \<and>
               inclusiveAliveCount (infoOf r' n) = inclusiveAliveCount (infoOf r n) + 1))"
proof -
  let ?al = "alive evs {}"
  from v have v1: "valid_events {} evs" and v2: "valid_events ?al [e]"
    by (simp_all add: valid_events_append)
  from run_counts [OF Inv_empty inv_counts_empty v1] r
  have I: "Inv r" and c: "inv_counts ?al r" by auto
  from v2 have wf: "wf_event e"
    and order: "case e of ObjectAdded ob \<Rightarrow> obj_address ob \<notin> ?al | _ \<Rightarrow> True"
    by simp_all
  have ns: "\<not> isStatic (infoOf r n)"
    using I dyn by (auto simp: Inv_def inv_pools_def)
  have zero: "invalid (infoOf r n) \<Longrightarrow> inclusiveAliveCount (infoOf r n) = 0"
    by (rule inv_countsD(5) [OF c])
  from step_flag_effect [OF I c wf order] obtain r' V where
    s: "step e r = Some r'"
    and eff: "case e of
                  AddMetaObject d mg \<Rightarrow>
                    invalid (infoOf r' n) = invalid (infoOf r n) \<and>
                    inclusiveAliveCount (infoOf r' n) = inclusiveAliveCount (infoOf r n)
                | ObjectAdded ob \<Rightarrow>
                    invalid (infoOf r' n) = (invalid (infoOf r n) \<and> n \<notin> V) \<and>
                    inclusiveAliveCount (infoOf r' n) =
                      inclusiveAliveCount (infoOf r n) + (if n \<in> V then 1 else 0)
                | ObjectRemoved ob \<Rightarrow>
                    invalid (infoOf r' n) =
                      (invalid (infoOf r n) \<or>
                       (n \<in> V \<and> inclusiveAliveCount (infoOf r n) = 1 \<and> \<not> isStatic (infoOf r n))) \<and>
                    inclusiveAliveCount (infoOf r' n) =
                      inclusiveAliveCount (infoOf r n) - (if n \<in> V then 1 else 0)"
    by blast
  have "(\<not> invalid (infoOf r n) \<and> invalid (infoOf r' n)) \<longleftrightarrow>
              ((\<exists>ob. e = ObjectRemoved ob) \<and> inclusiveAliveCount (infoOf r n) \<noteq> 0 \<and>
               inclusiveAliveCount (infoOf r' n) = 0)"
    using eff ns zero by (cases e) (auto split: if_splits)
  moreover have "(invalid (infoOf r n) \<and> \<not> invalid (infoOf r' n)) \<longleftrightarrow>
              ((\<exists>ob. e = ObjectAdded ob) \<and> invalid (infoOf r n) \<and>
               inclusiveAliveCount (infoOf r' n) = inclusiveAliveCount (infoOf r n) + 1)"
    using eff by (cases e) (auto split: if_splits)
  ultimately show ?thesis using s by blast
qed


theorem invalid_flag_changes_witness:
  "valid_events {} ([ObjectAdded instance_of_Item] @ [ObjectRemoved 11]) \<and>
   (\<exists>r r'. run [ObjectAdded instance_of_Item] empty_registry = Some r \<and>
           isDynamic (infoOf r (Some 4)) \<and> \<not> invalid (infoOf r (Some 4)) \<and>
           inclusiveAliveCount (infoOf r (Some 4)) \<noteq> 0 \<and>
           step (ObjectRemoved 11) r = Some r' \<and>
           invalid (infoOf r' (Some 4)) \<and> inclusiveAliveCount (infoOf r' (Some 4)) = 0)"
proof -
  let ?evs = "[ObjectAdded instance_of_Item]"
  have v: "valid_events {} (?evs @ [ObjectRemoved 11])"
    using add_then_remove_valid by (simp add: add_then_remove_def)
  have ev: "case run ?evs empty_registry of None \<Rightarrow> False
            | Some r \<Rightarrow> isDynamic (infoOf r (Some 4)) \<and> \<not> invalid (infoOf r (Some 4)) \<and>
                inclusiveAliveCount (infoOf r (Some 4)) \<noteq> 0"
    by code_simp
  have ev2: "case run (?evs @ [ObjectRemoved 11]) empty_registry of None \<Rightarrow> False
            | Some r' \<Rightarrow> inclusiveAliveCount (infoOf r' (Some 4)) = 0"
    by code_simp
  obtain r where r: "run ?evs empty_registry = Some r"
    and f: "isDynamic (infoOf r (Some 4))" "\<not> invalid (infoOf r (Some 4))"
      "inclusiveAliveCount (infoOf r (Some 4)) \<noteq> 0"
    using ev by (cases "run ?evs empty_registry") simp_all
  from invalid_flag_changes [OF v r f(1)] obtain r' where
    s: "step (ObjectRemoved 11) r = Some r'"
    and iff: "(\<not> invalid (infoOf r (Some 4)) \<and> invalid (infoOf r' (Some 4))) \<longleftrightarrow>
              ((\<exists>ob. ObjectRemoved 11 = ObjectRemoved ob) \<and>
               inclusiveAliveCount (infoOf r (Some 4)) \<noteq> 0 \<and>
               inclusiveAliveCount (infoOf r' (Some 4)) = 0)"
    by blast
  have "run (?evs @ [ObjectRemoved 11]) empty_registry = run [ObjectRemoved 11] r"
    unfolding run_append r by simp
  then have "run (?evs @ [ObjectRemoved 11]) empty_registry = Some r'"
    using s by simp
  then have z: "inclusiveAliveCount (infoOf r' (Some 4)) = 0"
    using ev2 by simp
  then have "invalid (infoOf r' (Some 4))"
    using iff f by blast
  then show ?thesis
    using v r f s z by blast
qed

section \<open>The increments of objectAdded\<close>

text \<open>
  C3: in a state reached from the empty registry, one call of \<^verbatim>\<open>objectAdded\<close> returns; with
  \<open>canonical\<close> the node that \<^verbatim>\<open>addMetaObject\<close> resolves the object's descriptor to and \<open>ch\<close>
  the chain of \<open>canonical\<close> and its ancestors, \<open>selfCount\<close> and \<open>selfAliveCount\<close> grow by one
  on \<open>canonical\<close> and on no other node, \<open>inclusiveCount\<close> and \<open>inclusiveAliveCount\<close> grow
  by one on the nodes of \<open>ch\<close> and on no other node, and the call emits one \<^verbatim>\<open>dataChanged\<close>
  signal per node of \<open>ch\<close>, in the order of the walk.  In the hierarchy \<open>A\<close> (root), \<open>B\<close>,
  \<open>C\<close> with one instance of \<open>C\<close> added, \<open>selfCount\<close> of \<open>C\<close> is 1 and \<open>inclusiveCount\<close> of
  \<open>A\<close>, \<open>B\<close> and \<open>C\<close> is 1.
\<close>

theorem objectAdded_increments:
  assumes reach: "list_all wf_event evs" "run evs empty_registry = Some r"
    and wf: "wf_QMetaObject (metaObject ob)"
  shows "(\<exists>r' canonical r1 ch.
            addMetaObject (metaObject ob) (hasDynamicMetaObject ob) r = (canonical, r1) \<and>
            objectAdded ob r = Some r' \<and>
            parentChain (m_childParentMap r') canonical = Some ch \<and>
            distinct ch \<and> canonical \<in> set ch \<and>
            (\<forall>n. selfCount (infoOf r' n) =
                   selfCount (infoOf r n) + (if n = canonical then 1 else 0) \<and>
                 selfAliveCount (infoOf r' n) =
                   selfAliveCount (infoOf r n) + (if n = canonical then 1 else 0) \<and>
                 inclusiveCount (infoOf r' n) =
                   inclusiveCount (infoOf r n) + (if n \<in> set ch then 1 else 0) \<and>
                 inclusiveAliveCount (infoOf r' n) =
                   inclusiveAliveCount (infoOf r n) + (if n \<in> set ch then 1 else 0)) \<and>
            emitted r' = emitted r1 @ map DataChanged ch \<and>
            dataChanges (emitted r') = dataChanges (emitted r) @ ch) \<and>
         (\<exists>r. run [AddMetaObject class_C False, ObjectAdded instance_of_C] empty_registry = Some r \<and>
              selfCount (infoOf r (Some 3)) = 1 \<and>
              inclusiveCount (infoOf r (Some 1)) = 1 \<and>
              inclusiveCount (infoOf r (Some 2)) = 1 \<and>
              inclusiveCount (infoOf r (Some 3)) = 1)"
proof -
  have I: "Inv r"
    using run_Inv [OF Inv_empty reach(1)] reach(2) by auto
  obtain m r1 where add: "addMetaObject (metaObject ob) (hasDynamicMetaObject ob) r = (m, r1)"
    by (cases "addMetaObject (metaObject ob) (hasDynamicMetaObject ob) r")
  from addMetaObject_Inv [OF I wf add] have e: "extends r r1" by simp
  from objectAdded_result [OF I wf add] obtain ch where
    ch: "parentChain (m_childParentMap r1) m = Some ch"
    and d: "distinct ch" and hd: "\<exists>ch'. ch = m # ch'"
    and res: "objectAdded ob r = Some (fold increaseStep ch (trackObject ob m r1))"
    by blast
  let ?r' = "fold increaseStep ch (trackObject ob m r1)"
  note f = tracked_fields [OF ch, of ob]
  have old: "selfCount (infoOf r1 n) = selfCount (infoOf r n)"
    "selfAliveCount (infoOf r1 n) = selfAliveCount (infoOf r n)"
    "inclusiveCount (infoOf r1 n) = inclusiveCount (infoOf r n)"
    "inclusiveAliveCount (infoOf r1 n) = inclusiveAliveCount (infoOf r n)" for n
    using e by (simp_all add: extends_def)
  have counters: "selfCount (infoOf ?r' n) = selfCount (infoOf r n) + (if n = m then 1 else 0) \<and>
      selfAliveCount (infoOf ?r' n) = selfAliveCount (infoOf r n) + (if n = m then 1 else 0) \<and>
      inclusiveCount (infoOf ?r' n) = inclusiveCount (infoOf r n) + (if n \<in> set ch then 1 else 0) \<and>
      inclusiveAliveCount (infoOf ?r' n) =
        inclusiveAliveCount (infoOf r n) + (if n \<in> set ch then 1 else 0)" for n
    using old [of n] old [of m] by (auto simp: f(6) trackObject_infoOf)
  obtain sigs where sigs: "emitted r1 = emitted r @ sigs" "dataChanges sigs = []"
    using e by (auto simp: extends_def)
  have trace: "dataChanges (emitted ?r') = dataChanges (emitted r) @ ch"
    by (simp add: f(4) sigs)
  have chain: "parentChain (m_childParentMap ?r') m = Some ch"
    using ch by (simp add: f(1))
  have general: "\<exists>r' canonical r1 ch.
            addMetaObject (metaObject ob) (hasDynamicMetaObject ob) r = (canonical, r1) \<and>
            objectAdded ob r = Some r' \<and>
            parentChain (m_childParentMap r') canonical = Some ch \<and>
            distinct ch \<and> canonical \<in> set ch \<and>
            (\<forall>n. selfCount (infoOf r' n) =
                   selfCount (infoOf r n) + (if n = canonical then 1 else 0) \<and>
                 selfAliveCount (infoOf r' n) =
                   selfAliveCount (infoOf r n) + (if n = canonical then 1 else 0) \<and>
                 inclusiveCount (infoOf r' n) =
                   inclusiveCount (infoOf r n) + (if n \<in> set ch then 1 else 0) \<and>
                 inclusiveAliveCount (infoOf r' n) =
                   inclusiveAliveCount (infoOf r n) + (if n \<in> set ch then 1 else 0)) \<and>
            emitted r' = emitted r1 @ map DataChanged ch \<and>
            dataChanges (emitted r') = dataChanges (emitted r) @ ch"
  proof (intro exI conjI allI)
    show "addMetaObject (metaObject ob) (hasDynamicMetaObject ob) r = (m, r1)" by (rule add)
    show "objectAdded ob r = Some ?r'" by (rule res)
    show "parentChain (m_childParentMap ?r') m = Some ch" by (rule chain)
    show "distinct ch" by (rule d)
    show "m \<in> set ch" using hd by auto
    show "emitted ?r' = emitted r1 @ map DataChanged ch" by (rule f(4))
    show "dataChanges (emitted ?r') = dataChanges (emitted r) @ ch" by (rule trace)
  qed (simp_all add: counters)
  have scenario: "case run [AddMetaObject class_C False, ObjectAdded instance_of_C] empty_registry of
        None \<Rightarrow> False
      | Some r \<Rightarrow> selfCount (infoOf r (Some 3)) = 1 \<and>
              inclusiveCount (infoOf r (Some 1)) = 1 \<and>
              inclusiveCount (infoOf r (Some 2)) = 1 \<and>
              inclusiveCount (infoOf r (Some 3)) = 1"
    by code_simp
  then have "\<exists>r. run [AddMetaObject class_C False, ObjectAdded instance_of_C] empty_registry = Some r \<and>
              selfCount (infoOf r (Some 3)) = 1 \<and>
              inclusiveCount (infoOf r (Some 1)) = 1 \<and>
              inclusiveCount (infoOf r (Some 2)) = 1 \<and>
              inclusiveCount (infoOf r (Some 3)) = 1"
    by (cases "run [AddMetaObject class_C False, ObjectAdded instance_of_C] empty_registry") simp_all
  with general show ?thesis by (rule conjI)
qed

theorem objectAdded_increments_witness:
  "list_all wf_event [AddMetaObject class_C False] \<and>
   wf_QMetaObject (metaObject instance_of_C) \<and>
   (\<exists>r r' ch. run [AddMetaObject class_C False] empty_registry = Some r \<and>
        objectAdded instance_of_C r = Some r' \<and>
        parentChain (m_childParentMap r') (Some 3) = Some ch \<and>
        selfCount (infoOf r' (Some 3)) = selfCount (infoOf r (Some 3)) + 1 \<and>
        selfCount (infoOf r' (Some 2)) = selfCount (infoOf r (Some 2)) \<and>
        dataChanges (emitted r') = dataChanges (emitted r) @ ch)"
proof -
  let ?evs = "[AddMetaObject class_C False]"
  have wfs: "list_all wf_event ?evs" "wf_QMetaObject (metaObject instance_of_C)"
    by (simp_all add: example_wf instance_of_C_def)
  obtain r where r: "run ?evs empty_registry = Some r"
    using run_Inv [OF Inv_empty wfs(1)] by blast
  have "case run ?evs empty_registry of None \<Rightarrow> False
        | Some r \<Rightarrow> fst (addMetaObject (metaObject instance_of_C)
                          (hasDynamicMetaObject instance_of_C) r) = Some 3"
    by code_simp
  then have canonical: "fst (addMetaObject (metaObject instance_of_C)
                          (hasDynamicMetaObject instance_of_C) r) = Some 3"
    using r by simp
  from objectAdded_increments [OF wfs(1) r wfs(2)] obtain r' c r1 ch where
    a: "addMetaObject (metaObject instance_of_C) (hasDynamicMetaObject instance_of_C) r = (c, r1)"
    and b: "objectAdded instance_of_C r = Some r'"
      "parentChain (m_childParentMap r') c = Some ch"
      "\<forall>n. selfCount (infoOf r' n) = selfCount (infoOf r n) + (if n = c then 1 else 0)"
      "dataChanges (emitted r') = dataChanges (emitted r) @ ch"
    by blast
  have c: "c = Some 3" using a canonical by simp
  have "selfCount (infoOf r' (Some 3)) = selfCount (infoOf r (Some 3)) + 1"
    "selfCount (infoOf r' (Some 2)) = selfCount (infoOf r (Some 2))"
    using b(3) c by simp_all
  then show ?thesis
    using wfs r b(1,2,4) c by blast
qed

section \<open>Merging dynamic descriptors by name\<close>

lemma addMetaObject_resolves:
  assumes I: "Inv r" and wf: "wf_QMetaObject d" and dyn: "\<not> isReadOnlyData d"
    and guard: "\<not> isKnownMetaObject r (Some (address d)) \<or>
                m_metaObjectNameMap r (mo_className d) = Some (Some (address d))"
    and res: "addMetaObject d True r = (c, r')"
  shows "m_metaObjectNameMap r' (mo_className d) = Some c"
proof (cases "isKnownMetaObject r (Some (address d))")
  case True
  then have "c = Some (address d)" "r' = r" using res by (auto simp: addMetaObject_unfold)
  then show ?thesis using guard True by simp
next
  case False
  obtain pm r1 where par: "registerParent (superClass d) True r = (pm, r1)"
    by (cases "registerParent (superClass d) True r")
  from addMetaObject_unknown_cases [OF I wf False par res] dyn
  show ?thesis by auto
qed

lemma addMetaObject_same_node:
  assumes I: "Inv r" and wf: "wf_QMetaObject d" and dyn: "\<not> isReadOnlyData d"
    and name: "m_metaObjectNameMap r (mo_className d) = Some c"
    and guard: "\<not> isKnownMetaObject r (Some (address d)) \<or> c = Some (address d)"
  shows "fst (addMetaObject d True r) = c"
proof (cases "isKnownMetaObject r (Some (address d))")
  case True
  then show ?thesis using guard by (simp add: addMetaObject_unfold)
next
  case False
  then show ?thesis using addMetaObject_merged(1) [OF I wf dyn False name] by simp
qed

text \<open>
  Two instances whose descriptors have the same class name and lie outside read-only
  storage, each descriptor not known or itself the canonical node of the name, are
  registered with merging one after the other.
\<close>

lemma two_instances_one_node:
  assumes I: "Inv r"
    and wf1: "wf_QMetaObject (metaObject ob1)" and wf2: "wf_QMetaObject (metaObject ob2)"
    and hd1: "hasDynamicMetaObject ob1" and hd2: "hasDynamicMetaObject ob2"
    and dyn1: "\<not> isReadOnlyData (metaObject ob1)" and dyn2: "\<not> isReadOnlyData (metaObject ob2)"
    and same: "mo_className (metaObject ob1) = mo_className (metaObject ob2)"
    and g1: "\<not> isKnownMetaObject r (Some (address (metaObject ob1))) \<or>
             m_metaObjectNameMap r (mo_className (metaObject ob1)) =
               Some (Some (address (metaObject ob1)))"
    and g2: "\<not> isKnownMetaObject r (Some (address (metaObject ob2))) \<or>
             m_metaObjectNameMap r (mo_className (metaObject ob2)) =
               Some (Some (address (metaObject ob2)))"
    and cons: "\<forall>p \<in> set (superClasses (metaObject ob1)).
                 address p = address (metaObject ob2) \<longrightarrow> p = metaObject ob2"
  shows "\<exists>ra rb c. objectAdded ob1 r = Some ra \<and> objectAdded ob2 ra = Some rb \<and>
           fst (addMetaObject (metaObject ob1) True r) = c \<and>
           fst (addMetaObject (metaObject ob2) True ra) = c \<and>
           c \<noteq> nullptr \<and> isKnownMetaObject rb c \<and>
           m_metaObjectNameMap rb (mo_className (metaObject ob1)) = Some c \<and>
           m_metaObjectMap rb (obj_address ob1) = Some c \<and>
           m_metaObjectMap rb (obj_address ob2) = Some c \<and>
           (\<forall>n. selfCount (infoOf rb n) = selfCount (infoOf r n) + (if n = c then 2 else 0)) \<and>
           (\<not> isKnownMetaObject r c \<longrightarrow> selfCount (infoOf rb c) = 2)"
proof -
  let ?d1 = "metaObject ob1" and ?d2 = "metaObject ob2"
  let ?a2 = "address ?d2"
  obtain c r1 where add1: "addMetaObject ?d1 True r = (c, r1)"
    by (cases "addMetaObject ?d1 True r")
  then have add1': "addMetaObject ?d1 (hasDynamicMetaObject ob1) r = (c, r1)"
    using hd1 by simp
  from addMetaObject_Inv [OF I wf1 add1]
  have I1: "Inv r1" and e1: "extends r r1" and c: "c \<noteq> nullptr" "m_childParentMap r1 c \<noteq> None"
    and new1: "\<forall>x. m_childParentMap r1 x \<noteq> None \<longrightarrow>
        m_childParentMap r x \<noteq> None \<or> x \<in> Some ` address ` set (superClasses ?d1)"
    by simp_all
  have name1: "m_metaObjectNameMap r1 (mo_className ?d1) = Some c"
    using addMetaObject_resolves [OF I wf1 dyn1 g1 add1] .
  from objectAdded_effect [OF I wf1 add1'] obtain ra where
    ra: "objectAdded ob1 r = Some ra" and Ia: "Inv ra"
    and cpm_a: "m_childParentMap ra = m_childParentMap r1"
    and nm_a: "m_metaObjectNameMap ra = m_metaObjectNameMap r1"
    and map_a: "m_metaObjectMap ra = (m_metaObjectMap r)(obj_address ob1 \<mapsto> c)"
    and cnt_a: "\<forall>n. selfCount (infoOf ra n) = selfCount (infoOf r n) + (if n = c then 1 else 0)"
    by blast
  have name_a: "m_metaObjectNameMap ra (mo_className ?d2) = Some c"
    using name1 nm_a same by simp
  have guard_a: "\<not> isKnownMetaObject ra (Some ?a2) \<or> c = Some ?a2"
  proof (cases "isKnownMetaObject ra (Some ?a2)")
    case False
    then show ?thesis by simp
  next
    case True
    then have k1: "isKnownMetaObject r1 (Some ?a2)"
      using cpm_a by (simp add: isKnownMetaObject_def)
    have "m_metaObjectNameMap r1 (mo_className ?d2) = Some (Some ?a2)"
    proof (cases "isKnownMetaObject r (Some ?a2)")
      case True
      then have "m_metaObjectNameMap r (mo_className ?d2) = Some (Some ?a2)"
        using g2 by simp
      then show ?thesis using e1 by (simp add: extends_def)
    next
      case False
      then have "Some ?a2 \<in> Some ` address ` set (superClasses ?d1)"
        using new1 k1 by (auto simp: isKnownMetaObject_def)
      then obtain p where p: "p \<in> set (superClasses ?d1)" "address p = ?a2" by auto
      then have "p = ?d2" using cons by blast
      then have "?d2 \<in> set (superClasses ?d1)" using p by simp
      from addMetaObject_new_canonical [OF I wf1 add1 this False k1 dyn2]
      show ?thesis by simp
    qed
    then show ?thesis using name1 same by simp
  qed
  have fst2: "fst (addMetaObject ?d2 True ra) = c"
    using addMetaObject_same_node [OF Ia wf2 dyn2 name_a guard_a] .
  obtain r2 where add2: "addMetaObject ?d2 (hasDynamicMetaObject ob2) ra = (c, r2)"
    using fst2 hd2 by (cases "addMetaObject ?d2 True ra") simp
  from addMetaObject_Inv [OF Ia wf2 add2]
  have e2: "extends ra r2" and c2: "m_childParentMap r2 c \<noteq> None" by simp_all
  from objectAdded_effect [OF Ia wf2 add2] obtain rb where
    rb: "objectAdded ob2 ra = Some rb"
    and cpm_b: "m_childParentMap rb = m_childParentMap r2"
    and nm_b: "m_metaObjectNameMap rb = m_metaObjectNameMap r2"
    and map_b: "m_metaObjectMap rb = (m_metaObjectMap ra)(obj_address ob2 \<mapsto> c)"
    and cnt_b: "\<forall>n. selfCount (infoOf rb n) = selfCount (infoOf ra n) + (if n = c then 1 else 0)"
    by blast
  have cnt: "\<forall>n. selfCount (infoOf rb n) = selfCount (infoOf r n) + (if n = c then 2 else 0)"
    using cnt_a cnt_b by simp
  have zero: "selfCount (infoOf r c) = 0" if "\<not> isKnownMetaObject r c"
  proof -
    have "m_metaObjectInfoMap r c = None"
      using I that by (auto simp: Inv_def inv_refs_def isKnownMetaObject_def)
    then show ?thesis by (simp add: infoOf_def default_MetaObjectInfo_def)
  qed
  have two: "\<not> isKnownMetaObject r c \<longrightarrow> selfCount (infoOf rb c) = 2"
    using zero cnt by simp
  have name_b: "m_metaObjectNameMap rb (mo_className ?d1) = Some c"
    using e2 name_a same nm_b by (simp add: extends_def)
  have known_b: "isKnownMetaObject rb c"
    using c2 cpm_b by (simp add: isKnownMetaObject_def)
  have maps: "m_metaObjectMap rb (obj_address ob1) = Some c"
    "m_metaObjectMap rb (obj_address ob2) = Some c"
    using map_a map_b by simp_all
  have fst1: "fst (addMetaObject ?d1 True r) = c" using add1 by simp
  show ?thesis
    using ra rb fst1 fst2 c(1) known_b name_b maps cnt two by blast
qed

text \<open>
  C1, as the code has it.  In a state reached from the empty registry, let \<open>d\<close> be a
  descriptor outside read-only storage that is not known, registered with merging, while the
  name map has a canonical node \<open>c\<close> for its class name.  Then \<^verbatim>\<open>addMetaObject\<close> returns \<open>c\<close>,
  which is a known node, and inserts no node and no info for \<open>d\<close>: the registry it leaves is
  the one left by the parent-first registration of the superclass of \<open>d\<close>, which is the
  registry as it was when the superclass is null or known.  A descriptor that is known is
  returned itself, whatever the name map holds.  Consequently, in any reachable state, when
  two descriptors with the same class name outside read-only storage, each of them not known
  or itself the canonical node of the name, each register one instance with a dynamic meta
  object, both calls of \<^verbatim>\<open>objectAdded\<close> resolve to one and the same canonical node, both
  objects are tracked under it, its \<open>selfCount\<close> grows by 2 and no other \<open>selfCount\<close> changes;
  the \<open>selfCount\<close> is 2 when the node is new.  (A descriptor on the superclass chain of the
  first one that has the address of the second one is the second one.)
\<close>

theorem dynamic_descriptors_merge_by_name:
  "(list_all wf_event evs \<and> run evs empty_registry = Some r \<and> wf_QMetaObject d \<and>
    \<not> isReadOnlyData d \<and> \<not> isKnownMetaObject r (Some (address d)) \<and>
    m_metaObjectNameMap r (mo_className d) = Some c \<longrightarrow>
      addMetaObject d True r = (c, snd (registerParent (superClass d) True r)) \<and>
      isKnownMetaObject r c \<and> c \<noteq> nullptr \<and>
      \<not> isKnownMetaObject (snd (addMetaObject d True r)) (Some (address d)) \<and>
      m_metaObjectInfoMap (snd (addMetaObject d True r)) (Some (address d)) = None \<and>
      ((case superClass d of None \<Rightarrow> True
        | Some p \<Rightarrow> isKnownMetaObject r (Some (address p))) \<longrightarrow>
         addMetaObject d True r = (c, r))) \<and>
   (isKnownMetaObject r0 (Some (address d0)) \<longrightarrow>
      addMetaObject d0 mergeDynamic r0 = (Some (address d0), r0)) \<and>
   (list_all wf_event evs' \<and> run evs' empty_registry = Some s \<and>
    wf_QMetaObject (metaObject ob1) \<and> wf_QMetaObject (metaObject ob2) \<and>
    hasDynamicMetaObject ob1 \<and> hasDynamicMetaObject ob2 \<and>
    \<not> isReadOnlyData (metaObject ob1) \<and> \<not> isReadOnlyData (metaObject ob2) \<and>
    mo_className (metaObject ob1) = mo_className (metaObject ob2) \<and>
    (\<not> isKnownMetaObject s (Some (address (metaObject ob1))) \<or>
     m_metaObjectNameMap s (mo_className (metaObject ob1)) =
       Some (Some (address (metaObject ob1)))) \<and>
    (\<not> isKnownMetaObject s (Some (address (metaObject ob2))) \<or>
     m_metaObjectNameMap s (mo_className (metaObject ob2)) =
       Some (Some (address (metaObject ob2)))) \<and>
    (\<forall>p \<in> set (superClasses (metaObject ob1)).
       address p = address (metaObject ob2) \<longrightarrow> p = metaObject ob2) \<longrightarrow>
      (\<exists>ra rb canonical.
          objectAdded ob1 s = Some ra \<and> objectAdded ob2 ra = Some rb \<and>
          fst (addMetaObject (metaObject ob1) True s) = canonical \<and>
          fst (addMetaObject (metaObject ob2) True ra) = canonical \<and>
          canonical \<noteq> nullptr \<and> isKnownMetaObject rb canonical \<and>
          m_metaObjectNameMap rb (mo_className (metaObject ob1)) = Some canonical \<and>
          m_metaObjectMap rb (obj_address ob1) = Some canonical \<and>
          m_metaObjectMap rb (obj_address ob2) = Some canonical \<and>
          (\<forall>n. selfCount (infoOf rb n) =
                 selfCount (infoOf s n) + (if n = canonical then 2 else 0)) \<and>
          (\<not> isKnownMetaObject s canonical \<longrightarrow> selfCount (infoOf rb canonical) = 2)))"
proof (intro conjI)
  show "list_all wf_event evs \<and> run evs empty_registry = Some r \<and> wf_QMetaObject d \<and>
    \<not> isReadOnlyData d \<and> \<not> isKnownMetaObject r (Some (address d)) \<and>
    m_metaObjectNameMap r (mo_className d) = Some c \<longrightarrow>
      addMetaObject d True r = (c, snd (registerParent (superClass d) True r)) \<and>
      isKnownMetaObject r c \<and> c \<noteq> nullptr \<and>
      \<not> isKnownMetaObject (snd (addMetaObject d True r)) (Some (address d)) \<and>
      m_metaObjectInfoMap (snd (addMetaObject d True r)) (Some (address d)) = None \<and>
      ((case superClass d of None \<Rightarrow> True
        | Some p \<Rightarrow> isKnownMetaObject r (Some (address p))) \<longrightarrow>
         addMetaObject d True r = (c, r))"
  proof (rule impI)
    assume a: "list_all wf_event evs \<and> run evs empty_registry = Some r \<and> wf_QMetaObject d \<and>
      \<not> isReadOnlyData d \<and> \<not> isKnownMetaObject r (Some (address d)) \<and>
      m_metaObjectNameMap r (mo_className d) = Some c"
    then have I: "Inv r"
      using run_Inv [OF Inv_empty, of evs] by auto
    from a have h: "wf_QMetaObject d" "\<not> isReadOnlyData d"
      "\<not> isKnownMetaObject r (Some (address d))" "m_metaObjectNameMap r (mo_className d) = Some c"
      by simp_all
    note m = addMetaObject_merged [OF I h]
    have last: "(case superClass d of None \<Rightarrow> True
        | Some p \<Rightarrow> isKnownMetaObject r (Some (address p))) \<longrightarrow>
         addMetaObject d True r = (c, r)"
    proof
      assume "case superClass d of None \<Rightarrow> True | Some p \<Rightarrow> isKnownMetaObject r (Some (address p))"
      then have "snd (registerParent (superClass d) True r) = r"
        by (rule registerParent_known)
      then show "addMetaObject d True r = (c, r)" using m(1) by simp
    qed
    show "addMetaObject d True r = (c, snd (registerParent (superClass d) True r)) \<and>
      isKnownMetaObject r c \<and> c \<noteq> nullptr \<and>
      \<not> isKnownMetaObject (snd (addMetaObject d True r)) (Some (address d)) \<and>
      m_metaObjectInfoMap (snd (addMetaObject d True r)) (Some (address d)) = None \<and>
      ((case superClass d of None \<Rightarrow> True
        | Some p \<Rightarrow> isKnownMetaObject r (Some (address p))) \<longrightarrow>
         addMetaObject d True r = (c, r))"
      using m(1) m(3) m(4) m(2) m(5) last by (intro conjI)
  qed
next
  show "isKnownMetaObject r0 (Some (address d0)) \<longrightarrow>
      addMetaObject d0 mergeDynamic r0 = (Some (address d0), r0)"
    by (simp add: addMetaObject_unfold)
next
  show "list_all wf_event evs' \<and> run evs' empty_registry = Some s \<and>
    wf_QMetaObject (metaObject ob1) \<and> wf_QMetaObject (metaObject ob2) \<and>
    hasDynamicMetaObject ob1 \<and> hasDynamicMetaObject ob2 \<and>
    \<not> isReadOnlyData (metaObject ob1) \<and> \<not> isReadOnlyData (metaObject ob2) \<and>
    mo_className (metaObject ob1) = mo_className (metaObject ob2) \<and>
    (\<not> isKnownMetaObject s (Some (address (metaObject ob1))) \<or>
     m_metaObjectNameMap s (mo_className (metaObject ob1)) =
       Some (Some (address (metaObject ob1)))) \<and>
    (\<not> isKnownMetaObject s (Some (address (metaObject ob2))) \<or>
     m_metaObjectNameMap s (mo_className (metaObject ob2)) =
       Some (Some (address (metaObject ob2)))) \<and>
    (\<forall>p \<in> set (superClasses (metaObject ob1)).
       address p = address (metaObject ob2) \<longrightarrow> p = metaObject ob2) \<longrightarrow>
      (\<exists>ra rb canonical.
          objectAdded ob1 s = Some ra \<and> objectAdded ob2 ra = Some rb \<and>
          fst (addMetaObject (metaObject ob1) True s) = canonical \<and>
          fst (addMetaObject (metaObject ob2) True ra) = canonical \<and>
          canonical \<noteq> nullptr \<and> isKnownMetaObject rb canonical \<and>
          m_metaObjectNameMap rb (mo_className (metaObject ob1)) = Some canonical \<and>
          m_metaObjectMap rb (obj_address ob1) = Some canonical \<and>
          m_metaObjectMap rb (obj_address ob2) = Some canonical \<and>
          (\<forall>n. selfCount (infoOf rb n) =
                 selfCount (infoOf s n) + (if n = canonical then 2 else 0)) \<and>
          (\<not> isKnownMetaObject s canonical \<longrightarrow> selfCount (infoOf rb canonical) = 2))"
  proof (rule impI)
    assume a: "list_all wf_event evs' \<and> run evs' empty_registry = Some s \<and>
      wf_QMetaObject (metaObject ob1) \<and> wf_QMetaObject (metaObject ob2) \<and>
      hasDynamicMetaObject ob1 \<and> hasDynamicMetaObject ob2 \<and>
      \<not> isReadOnlyData (metaObject ob1) \<and> \<not> isReadOnlyData (metaObject ob2) \<and>
      mo_className (metaObject ob1) = mo_className (metaObject ob2) \<and>
      (\<not> isKnownMetaObject s (Some (address (metaObject ob1))) \<or>
       m_metaObjectNameMap s (mo_className (metaObject ob1)) =
         Some (Some (address (metaObject ob1)))) \<and>
      (\<not> isKnownMetaObject s (Some (address (metaObject ob2))) \<or>
       m_metaObjectNameMap s (mo_className (metaObject ob2)) =
         Some (Some (address (metaObject ob2)))) \<and>
      (\<forall>p \<in> set (superClasses (metaObject ob1)).
         address p = address (metaObject ob2) \<longrightarrow> p = metaObject ob2)"
    then have I: "Inv s"
      using run_Inv [OF Inv_empty, of evs'] by auto
    from a have h: "wf_QMetaObject (metaObject ob1)" "wf_QMetaObject (metaObject ob2)"
      "hasDynamicMetaObject ob1" "hasDynamicMetaObject ob2"
      "\<not> isReadOnlyData (metaObject ob1)" "\<not> isReadOnlyData (metaObject ob2)"
      "mo_className (metaObject ob1) = mo_className (metaObject ob2)"
      "\<not> isKnownMetaObject s (Some (address (metaObject ob1))) \<or>
       m_metaObjectNameMap s (mo_className (metaObject ob1)) =
         Some (Some (address (metaObject ob1)))"
      "\<not> isKnownMetaObject s (Some (address (metaObject ob2))) \<or>
       m_metaObjectNameMap s (mo_className (metaObject ob2)) =
         Some (Some (address (metaObject ob2)))"
      "\<forall>p \<in> set (superClasses (metaObject ob1)).
         address p = address (metaObject ob2) \<longrightarrow> p = metaObject ob2"
      by blast+
    show "\<exists>ra rb canonical.
          objectAdded ob1 s = Some ra \<and> objectAdded ob2 ra = Some rb \<and>
          fst (addMetaObject (metaObject ob1) True s) = canonical \<and>
          fst (addMetaObject (metaObject ob2) True ra) = canonical \<and>
          canonical \<noteq> nullptr \<and> isKnownMetaObject rb canonical \<and>
          m_metaObjectNameMap rb (mo_className (metaObject ob1)) = Some canonical \<and>
          m_metaObjectMap rb (obj_address ob1) = Some canonical \<and>
          m_metaObjectMap rb (obj_address ob2) = Some canonical \<and>
          (\<forall>n. selfCount (infoOf rb n) =
                 selfCount (infoOf s n) + (if n = canonical then 2 else 0)) \<and>
          (\<not> isKnownMetaObject s canonical \<longrightarrow> selfCount (infoOf rb canonical) = 2)"
      by (rule two_instances_one_node [OF I h])
  qed
qed

text \<open>
  The claim as stated fails on two inputs.  The descriptor \<open>script_1\<close> is known (it was
  registered without merging) when the name map holds \<open>script_2\<close> for its class name:
  \<^verbatim>\<open>addMetaObject\<close> with merging returns \<open>script_1\<close> itself.  The descriptor \<open>script_3\<close> is
  merged into \<open>script_2\<close>, and the call creates the node of its superclass \<open>A\<close>.
\<close>

theorem dynamic_descriptors_merge_counterexample:
  "\<not> isReadOnlyData script_1 \<and>
   m_metaObjectNameMap unmerged_then_merged (mo_className script_1) = Some (Some 6) \<and>
   fst (addMetaObject script_1 True unmerged_then_merged) = Some 5 \<and>
   fst (addMetaObject script_1 True unmerged_then_merged) \<noteq> Some 6 \<and>
   \<not> isReadOnlyData script_3 \<and>
   m_metaObjectNameMap (snd (addMetaObject script_2 True empty_registry))
     (mo_className script_3) = Some (Some 6) \<and>
   \<not> isKnownMetaObject (snd (addMetaObject script_2 True empty_registry)) (Some 1) \<and>
   fst (addMetaObject script_3 True (snd (addMetaObject script_2 True empty_registry))) = Some 6 \<and>
   isKnownMetaObject
     (snd (addMetaObject script_3 True (snd (addMetaObject script_2 True empty_registry))))
     (Some 1)"
  by code_simp

theorem dynamic_descriptors_merge_by_name_witness:
  "list_all wf_event [AddMetaObject script_2 True] \<and>
   run [AddMetaObject script_2 True] empty_registry =
     Some (snd (addMetaObject script_2 True empty_registry)) \<and>
   wf_QMetaObject script_3 \<and> \<not> isReadOnlyData script_3 \<and>
   \<not> isKnownMetaObject (snd (addMetaObject script_2 True empty_registry))
       (Some (address script_3)) \<and>
   m_metaObjectNameMap (snd (addMetaObject script_2 True empty_registry))
     (mo_className script_3) = Some (Some 6) \<and>
   fst (addMetaObject script_3 True (snd (addMetaObject script_2 True empty_registry))) = Some 6 \<and>
   \<not> isKnownMetaObject
       (snd (addMetaObject script_3 True (snd (addMetaObject script_2 True empty_registry))))
       (Some 7) \<and>
   isKnownMetaObject unmerged_then_merged (Some (address script_1)) \<and>
   addMetaObject script_1 True unmerged_then_merged = (Some 5, unmerged_then_merged) \<and>
   list_all wf_event [AddMetaObject class_A False] \<and>
   run [AddMetaObject class_A False] empty_registry =
     Some (new_registry [] class_A False) \<and>
   superClass (metaObject instance_of_S1) \<noteq> None \<and>
   address (metaObject instance_of_S1) \<noteq> address (metaObject instance_of_S2) \<and>
   (\<exists>ra rb. objectAdded instance_of_S1 (new_registry [] class_A False) = Some ra \<and>
        objectAdded instance_of_S2 ra = Some rb \<and>
        m_metaObjectMap rb 20 = Some (Some 51) \<and> m_metaObjectMap rb 21 = Some (Some 51) \<and>
        selfCount (infoOf rb (Some 51)) = 2 \<and>
        selfCount (infoOf rb (Some 52)) =
          selfCount (infoOf (new_registry [] class_A False) (Some 52)))"
proof -
  let ?r = "snd (addMetaObject script_2 True empty_registry)"
  let ?s = "new_registry [] class_A False"
  have h: "list_all wf_event [AddMetaObject script_2 True]"
    "run [AddMetaObject script_2 True] empty_registry = Some ?r"
    "wf_QMetaObject script_3"
    by (simp_all add: wf_QMetaObject_def script_2_def script_3_def class_A_def)
  have g: "\<not> isReadOnlyData script_3 \<and> \<not> isKnownMetaObject ?r (Some (address script_3)) \<and>
      m_metaObjectNameMap ?r (mo_className script_3) = Some (Some 6) \<and>
      isKnownMetaObject unmerged_then_merged (Some (address script_1)) \<and>
      address script_1 = 5 \<and> address script_3 = 7"
    by code_simp
  note t = dynamic_descriptors_merge_by_name
    [of "[AddMetaObject script_2 True]" ?r script_3 "Some 6" unmerged_then_merged script_1
        True "[AddMetaObject class_A False]" ?s instance_of_S1 instance_of_S2]
  have hyp1: "list_all wf_event [AddMetaObject script_2 True] \<and>
      run [AddMetaObject script_2 True] empty_registry = Some ?r \<and> wf_QMetaObject script_3 \<and>
      \<not> isReadOnlyData script_3 \<and> \<not> isKnownMetaObject ?r (Some (address script_3)) \<and>
      m_metaObjectNameMap ?r (mo_className script_3) = Some (Some 6)"
    using h g by blast
  note c1 = t [THEN conjunct1, THEN mp, OF hyp1]
  have one: "addMetaObject script_3 True ?r =
      (Some 6, snd (registerParent (superClass script_3) True ?r))"
    "\<not> isKnownMetaObject (snd (addMetaObject script_3 True ?r)) (Some (address script_3))"
    using c1 by blast+
  have known1: "isKnownMetaObject unmerged_then_merged (Some (address script_1))"
    using g by blast
  have two: "addMetaObject script_1 True unmerged_then_merged =
      (Some (address script_1), unmerged_then_merged)"
    using t [THEN conjunct2, THEN conjunct1, THEN mp, OF known1] .
  have fst: "fst (addMetaObject script_3 True ?r) = Some 6"
    using one(1) by simp
  have two': "addMetaObject script_1 True unmerged_then_merged = (Some 5, unmerged_then_merged)"
    using two g by simp
  have known: "\<not> isKnownMetaObject (snd (addMetaObject script_3 True ?r)) (Some 7)"
    using one(2) g by simp
  have s: "list_all wf_event [AddMetaObject class_A False]"
    "run [AddMetaObject class_A False] empty_registry = Some ?s"
    by (simp_all add: example_wf new_registry_def scanMetaTypes_def)
  have obs: "wf_QMetaObject (metaObject instance_of_S1)"
    "wf_QMetaObject (metaObject instance_of_S2)"
    "\<forall>p \<in> set (superClasses (metaObject instance_of_S1)).
       address p = address (metaObject instance_of_S2) \<longrightarrow> p = metaObject instance_of_S2"
    by (simp_all add: wf_QMetaObject_def instance_of_S1_def instance_of_S2_def class_S1_def
        class_S2_def class_A_def)
  have gs: "hasDynamicMetaObject instance_of_S1 \<and> hasDynamicMetaObject instance_of_S2 \<and>
      \<not> isReadOnlyData (metaObject instance_of_S1) \<and>
      \<not> isReadOnlyData (metaObject instance_of_S2) \<and>
      mo_className (metaObject instance_of_S1) = mo_className (metaObject instance_of_S2) \<and>
      \<not> isKnownMetaObject ?s (Some (address (metaObject instance_of_S1))) \<and>
      \<not> isKnownMetaObject ?s (Some (address (metaObject instance_of_S2))) \<and>
      fst (addMetaObject (metaObject instance_of_S1) True ?s) = Some 51 \<and>
      \<not> isKnownMetaObject ?s (Some 51) \<and>
      obj_address instance_of_S1 = 20 \<and> obj_address instance_of_S2 = 21 \<and>
      superClass (metaObject instance_of_S1) \<noteq> None \<and>
      address (metaObject instance_of_S1) \<noteq> address (metaObject instance_of_S2)"
    by code_simp
  have hyp3: "list_all wf_event [AddMetaObject class_A False] \<and>
      run [AddMetaObject class_A False] empty_registry = Some ?s \<and>
      wf_QMetaObject (metaObject instance_of_S1) \<and> wf_QMetaObject (metaObject instance_of_S2) \<and>
      hasDynamicMetaObject instance_of_S1 \<and> hasDynamicMetaObject instance_of_S2 \<and>
      \<not> isReadOnlyData (metaObject instance_of_S1) \<and>
      \<not> isReadOnlyData (metaObject instance_of_S2) \<and>
      mo_className (metaObject instance_of_S1) = mo_className (metaObject instance_of_S2) \<and>
      (\<not> isKnownMetaObject ?s (Some (address (metaObject instance_of_S1))) \<or>
       m_metaObjectNameMap ?s (mo_className (metaObject instance_of_S1)) =
         Some (Some (address (metaObject instance_of_S1)))) \<and>
      (\<not> isKnownMetaObject ?s (Some (address (metaObject instance_of_S2))) \<or>
       m_metaObjectNameMap ?s (mo_className (metaObject instance_of_S2)) =
         Some (Some (address (metaObject instance_of_S2)))) \<and>
      (\<forall>p \<in> set (superClasses (metaObject instance_of_S1)).
         address p = address (metaObject instance_of_S2) \<longrightarrow> p = metaObject instance_of_S2)"
    using s obs gs by blast
  from t [THEN conjunct2, THEN conjunct2, THEN mp, OF hyp3] obtain ra rb c where
    r: "objectAdded instance_of_S1 ?s = Some ra" "objectAdded instance_of_S2 ra = Some rb"
    and c: "fst (addMetaObject (metaObject instance_of_S1) True ?s) = c"
    and maps: "m_metaObjectMap rb (obj_address instance_of_S1) = Some c"
      "m_metaObjectMap rb (obj_address instance_of_S2) = Some c"
    and cnt: "\<forall>n. selfCount (infoOf rb n) = selfCount (infoOf ?s n) + (if n = c then 2 else 0)"
    and new: "\<not> isKnownMetaObject ?s c \<longrightarrow> selfCount (infoOf rb c) = 2"
    by blast
  have c51: "c = Some 51" using c gs by simp
  have "selfCount (infoOf rb (Some 51)) = 2" using new c51 gs by blast
  moreover have "selfCount (infoOf rb (Some 52)) = selfCount (infoOf ?s (Some 52))"
    using cnt c51 by simp
  moreover have "m_metaObjectMap rb 20 = Some (Some 51)" "m_metaObjectMap rb 21 = Some (Some 51)"
    using maps c51 gs by simp_all
  ultimately have last: "\<exists>ra rb. objectAdded instance_of_S1 ?s = Some ra \<and>
        objectAdded instance_of_S2 ra = Some rb \<and>
        m_metaObjectMap rb 20 = Some (Some 51) \<and> m_metaObjectMap rb 21 = Some (Some 51) \<and>
        selfCount (infoOf rb (Some 51)) = 2 \<and>
        selfCount (infoOf rb (Some 52)) = selfCount (infoOf ?s (Some 52))"
    using r by blast
  have gs': "superClass (metaObject instance_of_S1) \<noteq> None"
    "address (metaObject instance_of_S1) \<noteq> address (metaObject instance_of_S2)"
    using gs by blast+
  show ?thesis
    using h g fst known known1 two' s gs' last by (intro conjI) blast+
qed

section \<open>The representative alive descriptor\<close>

text \<open>
  On the reachable states \<^verbatim>\<open>aliveInstance\<close> returns a static node itself, and for a node
  with a pool the least descriptor of the pool, or null when the pool is empty; the pools
  are sorted and belong to dynamic nodes.
\<close>

lemma aliveInstance_reachable:
  assumes "list_all wf_event evs" and "run evs empty_registry = Some r"
  shows "(isStatic (infoOf r n) \<longrightarrow> aliveInstance r n = n) \<and>
         (\<forall>pool. m_aliveInstances r n = Some pool \<longrightarrow>
            sorted pool \<and> isDynamic (infoOf r n) \<and>
            (pool = [] \<longrightarrow> aliveInstance r n = nullptr) \<and>
            (pool \<noteq> [] \<longrightarrow> aliveInstance r n \<in> set pool \<and>
                             (\<forall>x \<in> set pool. aliveInstance r n \<le> x)))"
proof -
  have "Inv r"
    using run_Inv [OF Inv_empty assms(1)] assms(2) by auto
  then have P: "inv_pools r" by (simp add: Inv_def)
  have static: "aliveInstance r n = n" if "isStatic (infoOf r n)"
  proof -
    have "\<not> isDynamic (infoOf r n)" using P that by (auto simp: inv_pools_def)
    then have "m_aliveInstances r n = None" using P by (auto simp: inv_pools_def)
    then show ?thesis by (simp add: aliveInstance_def)
  qed
  have pool: "sorted pool \<and> isDynamic (infoOf r n) \<and>
            (pool = [] \<longrightarrow> aliveInstance r n = nullptr) \<and>
            (pool \<noteq> [] \<longrightarrow> aliveInstance r n \<in> set pool \<and>
                             (\<forall>x \<in> set pool. aliveInstance r n \<le> x))"
    if "m_aliveInstances r n = Some pool" for pool
  proof -
    have s: "sorted pool" and d: "isDynamic (infoOf r n)"
      using P that by (auto simp: inv_pools_def)
    show ?thesis
      using s d that by (cases pool) (auto simp: aliveInstance_def)
  qed
  show ?thesis using static pool by blast
qed

text \<open>
  C8 fails on a dynamic node that was registered as the superclass of a dynamic descriptor
  and never had an instance of its own: the node \<open>Base\<close> is dynamic and has no pool, and
  \<^verbatim>\<open>aliveInstance\<close> returns \<open>Base\<close> itself, not null, while an instance of \<open>Derived\<close> is alive
  and also after that instance is removed and \<open>Base\<close> is invalid.
\<close>

theorem aliveInstance_dynamic_without_pool:
  "(case run [ObjectAdded instance_of_Derived] empty_registry of
      None \<Rightarrow> False
    | Some r \<Rightarrow>
        isDynamic (infoOf r (Some 8)) \<and> \<not> isStatic (infoOf r (Some 8)) \<and>
        m_aliveInstances r (Some 8) = None \<and> selfAliveCount (infoOf r (Some 8)) = 0 \<and>
        aliveInstance r (Some 8) = Some 8 \<and> aliveInstance r (Some 8) \<noteq> nullptr \<and>
        aliveInstance r (Some 9) = Some 9) \<and>
   (case run [ObjectAdded instance_of_Derived, ObjectRemoved 12] empty_registry of
      None \<Rightarrow> False
    | Some r \<Rightarrow>
        isDynamic (infoOf r (Some 8)) \<and> invalid (infoOf r (Some 8)) \<and>
        inclusiveAliveCount (infoOf r (Some 8)) = 0 \<and>
        aliveInstance r (Some 8) = Some 8 \<and>
        aliveInstance r (Some 9) = nullptr)"
  by code_simp

end
